theory Spec2Isabelle
  imports Main "HOL-Library.Sublist"
begin

section \<open>Python strings\<close>

text \<open>
  A Python \<open>str\<close> is modelled as a \<open>string\<close>: one \<open>char\<close> per code point, for texts
  whose code points are below 256. The character classes below are those of Python 3 on
  that range (\<open>str.isspace\<close>, and the classes \<open>\s\<close> and \<open>\w\<close> of the \<open>re\<close> module on
  \<open>str\<close> patterns).
\<close>

definition nl :: char where
  "nl = CHR 0x0A"

definition is_space :: "char \<Rightarrow> bool" where
  "is_space c = (c \<in> set [CHR 0x09, CHR 0x0A, CHR 0x0B, CHR 0x0C, CHR 0x0D, CHR 0x1C, CHR 0x1D,
     CHR 0x1E, CHR 0x1F, CHR 0x20, CHR 0x85, CHR 0xA0])"

definition is_word :: "char \<Rightarrow> bool" where
  "is_word c = (let n = (of_char c :: nat) in
     (48 \<le> n \<and> n \<le> 57) \<or> (65 \<le> n \<and> n \<le> 90) \<or> n = 95 \<or> (97 \<le> n \<and> n \<le> 122) \<or>
     n = 170 \<or> n = 178 \<or> n = 179 \<or> n = 181 \<or> n = 185 \<or> n = 186 \<or>
     (188 \<le> n \<and> n \<le> 190) \<or> (192 \<le> n \<and> n \<le> 214) \<or> (216 \<le> n \<and> n \<le> 246) \<or> 248 \<le> n)"

definition is_lower :: "char \<Rightarrow> bool" where
  "is_lower c = (let n = (of_char c :: nat) in 97 \<le> n \<and> n \<le> 122)"

definition to_lower :: "char \<Rightarrow> char" where
  "to_lower c = (let n = (of_char c :: nat) in if 65 \<le> n \<and> n \<le> 90 then char_of (n + 32) else c)"

text \<open>\<open>str.strip()\<close>\<close>

definition strip :: "string \<Rightarrow> string" where
  "strip s = rev (dropWhile is_space (rev (dropWhile is_space s)))"

text \<open>\<open>str.split()\<close> without argument: the maximal runs of non-whitespace characters.\<close>

fun split_ws_go :: "string \<Rightarrow> string \<Rightarrow> string list" where
  "split_ws_go cur [] = (if cur = [] then [] else [cur])"
| "split_ws_go cur (c # cs) =
     (if is_space c then (if cur = [] then split_ws_go [] cs else cur # split_ws_go [] cs)
      else split_ws_go (cur @ [c]) cs)"

definition split_ws :: "string \<Rightarrow> string list" where
  "split_ws s = split_ws_go [] s"

text \<open>
  \<open>str.split(sep)\<close> for a non-empty separator. The counter is the number of characters
  of a separator occurrence that are still to be skipped.
\<close>

fun split_go :: "string \<Rightarrow> nat \<Rightarrow> string \<Rightarrow> string list" where
  "split_go sep k [] = [[]]"
| "split_go sep k (c # cs) =
     (if 0 < k then split_go sep (k - 1) cs
      else if prefix sep (c # cs) then [] # split_go sep (length sep - 1) cs
      else (case split_go sep 0 cs of [] \<Rightarrow> [[c]] | q # qs \<Rightarrow> (c # q) # qs))"

definition py_split :: "string \<Rightarrow> string \<Rightarrow> string list" where
  "py_split sep s = split_go sep 0 s"

text \<open>\<open>sep.join(xs)\<close>\<close>

fun py_join :: "string \<Rightarrow> string list \<Rightarrow> string" where
  "py_join sep [] = []"
| "py_join sep [x] = x"
| "py_join sep (x # y # ys) = x @ sep @ py_join sep (y # ys)"

text \<open>\<open>s.partition("=")\<close>, without the separator component.\<close>

definition partition_eq :: "string \<Rightarrow> string \<times> string" where
  "partition_eq s = (takeWhile (\<lambda>c. c \<noteq> CHR ''='') s, drop 1 (dropWhile (\<lambda>c. c \<noteq> CHR ''='') s))"

text \<open>\<open>u in s\<close> on strings.\<close>

fun contains :: "string \<Rightarrow> string \<Rightarrow> bool" where
  "contains u [] = (u = [])"
| "contains u (c # cs) = (prefix u (c # cs) \<or> contains u cs)"

text \<open>\<open>list(dict.fromkeys(xs))\<close>: the distinct elements in the order of their first occurrence.\<close>

fun fromkeys_go :: "'a list \<Rightarrow> 'a list \<Rightarrow> 'a list" where
  "fromkeys_go seen [] = seen"
| "fromkeys_go seen (x # xs) = fromkeys_go (if x \<in> set seen then seen else seen @ [x]) xs"

definition fromkeys :: "'a list \<Rightarrow> 'a list" where
  "fromkeys xs = fromkeys_go [] xs"

section \<open>The regular expressions of Python's \<open>re\<close> module\<close>

text \<open>
  The fragment of \<open>re\<close> that the program uses: literals, character classes, sequence,
  alternation, greedy and lazy repetition of a character class, an optional character, one
  capturing group, negative lookahead, a one-character lookbehind and the anchors
  \<open>\b\<close>, \<open>^\<close> and \<open>$\<close> (without MULTILINE or DOTALL).
\<close>

datatype re =
    Lit string
  | LitCI string
  | Sym "char \<Rightarrow> bool"
  | Seq re re
  | Alt re re
  | Star "char \<Rightarrow> bool"
  | Plus "char \<Rightarrow> bool"
  | LazyStar "char \<Rightarrow> bool"
  | Opt "char \<Rightarrow> bool"
  | Grp re
  | NotAhead re
  | Behind "char \<Rightarrow> bool"
  | WordB
  | Bol
  | Eol

text \<open>
  A candidate is a way the pattern can match at the current position: the text it consumes,
  the text left, and the text of group 1 when that group took part.
\<close>

type_synonym cand = "string \<times> string \<times> string option"

text \<open>The splits of \<open>s\<close> after zero or more leading characters of class \<open>P\<close>, shortest first.\<close>

fun runs :: "(char \<Rightarrow> bool) \<Rightarrow> string \<Rightarrow> (string \<times> string) list" where
  "runs P [] = [([], [])]"
| "runs P (c # cs) = ([], c # cs) # (if P c then map (\<lambda>(w, r). (c # w, r)) (runs P cs) else [])"

definition ci_prefix :: "string \<Rightarrow> string \<Rightarrow> bool" where
  "ci_prefix u s = (length u \<le> length s \<and> map to_lower (take (length u) s) = map to_lower u)"

definition last_char :: "char option \<Rightarrow> string \<Rightarrow> char option" where
  "last_char p w = (if w = [] then p else Some (last w))"

definition word_at :: "char option \<Rightarrow> bool" where
  "word_at p = (case p of None \<Rightarrow> False | Some c \<Rightarrow> is_word c)"

definition no_grp :: "string \<times> string \<Rightarrow> cand" where
  "no_grp x = (fst x, snd x, None)"

text \<open>Group 1 after a sequence: the text set by the later part when it sets one.\<close>

definition merge_grp :: "string option \<Rightarrow> string option \<Rightarrow> string option" where
  "merge_grp g1 g2 = (case g2 of None \<Rightarrow> g1 | Some g \<Rightarrow> Some g)"

text \<open>
  \<open>ms r p s\<close>: the candidates of \<open>r\<close> on the text \<open>s\<close> whose preceding character is \<open>p\<close>
  (\<open>None\<close> at the start of the string), in the order in which the backtracking matcher tries
  them: the longest repetition first when greedy, the shortest first when lazy, the left
  alternative first. The matcher takes the first candidate.
\<close>

fun ms :: "re \<Rightarrow> char option \<Rightarrow> string \<Rightarrow> cand list" where
  "ms (Lit u) p s = (if prefix u s then [(u, drop (length u) s, None)] else [])"
| "ms (LitCI u) p s =
     (if ci_prefix u s then [(take (length u) s, drop (length u) s, None)] else [])"
| "ms (Sym P) p s = (case s of [] \<Rightarrow> [] | c # cs \<Rightarrow> if P c then [([c], cs, None)] else [])"
| "ms (Seq a b) p s =
     concat (map (\<lambda>(w1, s1, g1).
        map (\<lambda>(w2, s2, g2). (w1 @ w2, s2, merge_grp g1 g2)) (ms b (last_char p w1) s1))
       (ms a p s))"
| "ms (Alt a b) p s = ms a p s @ ms b p s"
| "ms (Star P) p s = map no_grp (rev (runs P s))"
| "ms (Plus P) p s = map no_grp (rev (tl (runs P s)))"
| "ms (LazyStar P) p s = map no_grp (runs P s)"
| "ms (Opt P) p s = map no_grp (rev (take 2 (runs P s)))"
| "ms (Grp a) p s = map (\<lambda>(w, s', g). (w, s', Some w)) (ms a p s)"
| "ms (NotAhead a) p s = (if ms a p s = [] then [([], s, None)] else [])"
| "ms (Behind P) p s =
     (case p of None \<Rightarrow> [] | Some c \<Rightarrow> if P c then [([], s, None)] else [])"
| "ms WordB p s =
     (if word_at p \<noteq> word_at (case s of [] \<Rightarrow> None | c # cs \<Rightarrow> Some c) then [([], s, None)] else [])"
| "ms Bol p s = (if p = None then [([], s, None)] else [])"
| "ms Eol p s = (if s = [] \<or> s = [nl] then [([], s, None)] else [])"

definition seqs :: "re list \<Rightarrow> re" where
  "seqs rs = foldr Seq rs (Lit [])"

definition alts :: "re list \<Rightarrow> re" where
  "alts rs = foldr Alt rs (Sym (\<lambda>c. False))"

text \<open>
  The scan shared by \<open>re.sub\<close>, \<open>re.findall\<close>, \<open>re.split\<close> and \<open>re.search\<close>: the
  non-overlapping matches from left to right, each with the unmatched text before it, and
  the unmatched text after the last one. The counter is the number of characters of the
  current match that are still to be skipped.
\<close>

type_synonym found = "string \<times> string \<times> string option"

fun push :: "char \<Rightarrow> found list \<times> string \<Rightarrow> found list \<times> string" where
  "push c ([], t) = ([], c # t)"
| "push c ((gap, w, g) # fs, t) = ((c # gap, w, g) # fs, t)"

fun scan :: "re \<Rightarrow> nat \<Rightarrow> char option \<Rightarrow> string \<Rightarrow> found list \<times> string" where
  "scan r k p [] =
     (if 0 < k then ([], [])
      else (case ms r p [] of [] \<Rightarrow> ([], []) | (w, s', g) # _ \<Rightarrow> ([([], w, g)], [])))"
| "scan r k p (c # cs) =
     (if 0 < k then scan r (k - 1) (Some c) cs
      else (case ms r p (c # cs) of
              [] \<Rightarrow> push c (scan r 0 (Some c) cs)
            | (w, s', g) # _ \<Rightarrow>
                (if w = [] then (case push c (scan r 0 (Some c) cs) of (fs, t) \<Rightarrow> (([], w, g) # fs, t))
                 else (case scan r (length w - 1) (Some c) cs of (fs, t) \<Rightarrow> (([], w, g) # fs, t)))))"

definition grp_text :: "string option \<Rightarrow> string" where
  "grp_text g = (case g of None \<Rightarrow> [] | Some x \<Rightarrow> x)"

text \<open>\<open>re.sub(r, repl, s)\<close>; \<open>repl\<close> receives the text of group 1.\<close>

definition re_sub :: "re \<Rightarrow> (string \<Rightarrow> string) \<Rightarrow> string \<Rightarrow> string" where
  "re_sub r repl s =
     (case scan r 0 None s of (fs, t) \<Rightarrow> concat (map (\<lambda>(gap, w, g). gap @ repl (grp_text g)) fs) @ t)"

text \<open>\<open>re.search(r, s)\<close>: the text before the leftmost match, the match and group 1.\<close>

definition re_search :: "re \<Rightarrow> string \<Rightarrow> found option" where
  "re_search r s = (case fst (scan r 0 None s) of [] \<Rightarrow> None | f # _ \<Rightarrow> Some f)"

text \<open>\<open>re.sub(r, repl, s, count=1)\<close>\<close>

definition re_sub1 :: "re \<Rightarrow> (string \<Rightarrow> string) \<Rightarrow> string \<Rightarrow> string" where
  "re_sub1 r repl s =
     (case re_search r s of None \<Rightarrow> s
      | Some (gap, w, g) \<Rightarrow> gap @ repl (grp_text g) @ drop (length gap + length w) s)"

text \<open>\<open>re.match(r, s)\<close>: the match at the start of the string and its group 1.\<close>

definition re_match :: "re \<Rightarrow> string \<Rightarrow> (string \<times> string option) option" where
  "re_match r s = (case ms r None s of [] \<Rightarrow> None | (w, s', g) # _ \<Rightarrow> Some (w, g))"

text \<open>\<open>re.findall(r, s)\<close> for a pattern with one group: the texts of the group.\<close>

definition re_findall :: "re \<Rightarrow> string \<Rightarrow> string list" where
  "re_findall r s = map (\<lambda>(gap, w, g). grp_text g) (fst (scan r 0 None s))"

text \<open>\<open>re.split(r, s)\<close> for a pattern without group.\<close>

definition re_split :: "re \<Rightarrow> string \<Rightarrow> string list" where
  "re_split r s = (case scan r 0 None s of (fs, t) \<Rightarrow> map fst fs @ [t])"

section \<open>The program\<close>

subsection \<open>\<open>strip_rst\<close>\<close>

definition not_backtick :: "char \<Rightarrow> bool" where
  "not_backtick c = (c \<noteq> CHR ''`'')"

definition not_dot :: "char \<Rightarrow> bool" where
  "not_dot c = (c \<noteq> CHR ''.'')"

definition not_nl :: "char \<Rightarrow> bool" where
  "not_nl c = (c \<noteq> nl)"

text \<open>The class \<open>[a-z@/]\<close>\<close>

definition target_start :: "char \<Rightarrow> bool" where
  "target_start c = (is_lower c \<or> c = CHR ''@'' \<or> c = CHR ''/'')"

text \<open>The class \<open>[\w. @+=/:-]\<close>\<close>

definition target_char :: "char \<Rightarrow> bool" where
  "target_char c = (is_word c \<or> c \<in> set ''. @+=/:-'')"

text \<open>\<^verbatim>\<open>:(?:code|literal):`([^`]*)`\<close>\<close>

definition re_verbatim_role :: re where
  "re_verbatim_role =
     seqs [Lit '':'', Alt (Lit ''code'') (Lit ''literal''), Lit '':`'', Grp (Star not_backtick), Lit ''`'']"

text \<open>\<^verbatim>\<open>:[a-z]+:`([^`]*?)\s*<[^>]+>`\<close>\<close>

definition re_xref_role :: re where
  "re_xref_role =
     seqs [Lit '':'', Plus is_lower, Lit '':`'', Grp (LazyStar not_backtick), Star is_space,
           Lit ''<'', Plus (\<lambda>c. c \<noteq> CHR ''>''), Lit ''>`'']"

text \<open>\<^verbatim>\<open>:[a-z]+:`~?([^`]*)`\<close>\<close>

definition re_inline_role :: re where
  "re_inline_role =
     seqs [Lit '':'', Plus is_lower, Lit '':`'', Opt (\<lambda>c. c = CHR ''~''), Grp (Star not_backtick),
           Lit ''`'']"

text \<open>\<^verbatim>\<open>\s*<(?!https?://)(?:[a-z@/][\w. @+=/:-]*)>\<close>\<close>

definition re_url_ahead :: re where
  "re_url_ahead = seqs [Lit ''http'', Opt (\<lambda>c. c = CHR ''s''), Lit ''://'']"

definition re_target :: re where
  "re_target =
     seqs [Star is_space, Lit ''<'', NotAhead re_url_ahead, Sym target_start, Star target_char,
           Lit ''>'']"

text \<open>\<^verbatim>\<open>``([^`]*)``\<close>\<close>

definition re_double_backtick :: re where
  "re_double_backtick = seqs [Lit ''``'', Grp (Star not_backtick), Lit ''``'']"

text \<open>\<^verbatim>\<open>`([^`]*)`_\<close>\<close>

definition re_ref_underscore :: re where
  "re_ref_underscore = seqs [Lit ''`'', Grp (Star not_backtick), Lit ''`_'']"

text \<open>\<^verbatim>\<open>\.\. note::\<close>\<close>

definition re_note :: re where
  "re_note = Lit ''.. note::''"

text \<open>\<^verbatim>\<open>\.\. versionadded:: (\S+)\<close>\<close>

definition re_versionadded :: re where
  "re_versionadded = seqs [Lit ''.. versionadded:: '', Grp (Plus (\<lambda>c. \<not> is_space c))]"

text \<open>\<^verbatim>\<open>\.\. code-block::.*\<close>\<close>

definition re_code_block :: re where
  "re_code_block = seqs [Lit ''.. code-block::'', Star not_nl]"

text \<open>\<^verbatim>\<open>\|(\w+)\|\<close>\<close>

definition re_substitution :: re where
  "re_substitution = seqs [Lit ''|'', Grp (Plus is_word), Lit ''|'']"

text \<open>\<^verbatim>\<open>(\w)::\<close>\<close>

definition re_literal_block :: re where
  "re_literal_block = seqs [Grp (Sym is_word), Lit ''::'']"

text \<open>
  The argument is \<open>None\<close> for Python's \<open>None\<close>; \<open>not text\<close> holds of \<open>None\<close> and of the
  empty string.
\<close>

definition strip_rst :: "string option \<Rightarrow> string" where
  "strip_rst text =
     (case text of None \<Rightarrow> []
      | Some t0 \<Rightarrow>
          if t0 = [] then []
          else
            let t1 = re_sub re_verbatim_role (\<lambda>g. g) t0;
                t2 = re_sub re_xref_role (\<lambda>g. g) t1;
                t3 = re_sub re_inline_role (\<lambda>g. g) t2;
                t4 = re_sub re_target (\<lambda>g. []) t3;
                t5 = re_sub re_double_backtick (\<lambda>g. g) t4;
                t6 = re_sub re_ref_underscore (\<lambda>g. g) t5;
                t7 = re_sub re_note (\<lambda>g. ''Note:'') t6;
                t8 = re_sub re_versionadded (\<lambda>g. ''(added in '' @ g @ '')'') t7;
                t9 = re_sub re_code_block (\<lambda>g. []) t8;
                t10 = re_sub re_substitution (\<lambda>g. g) t9;
                t11 = re_sub re_literal_block (\<lambda>g. g @ '':'') t10
            in strip t11)"

subsection \<open>\<open>extract_values\<close>\<close>

text \<open>\<^verbatim>\<open>[^.]*(?:can be|one of|valid values|set to one|allowed values)[^.]*\.\<close>, with IGNORECASE\<close>

definition re_trigger :: re where
  "re_trigger =
     seqs [Star not_dot,
           alts [LitCI ''can be'', LitCI ''one of'', LitCI ''valid values'', LitCI ''set to one'',
                 LitCI ''allowed values''],
           Star not_dot, Lit ''.'']"

text \<open>\<^verbatim>\<open>:opt:`(\w+)`\<close>\<close>

definition re_opt_ref :: re where
  "re_opt_ref = seqs [Lit '':opt:`'', Grp (Plus is_word), Lit ''`'']"

text \<open>\<^verbatim>\<open>:code:`([^`]+)`\<close>\<close>

definition re_code_token :: re where
  "re_code_token = seqs [Lit '':code:`'', Grp (Plus not_backtick), Lit ''`'']"

definition extract_values :: "string \<Rightarrow> string option \<Rightarrow> string list" where
  "extract_values opt_name text =
     (case text of None \<Rightarrow> []
      | Some t \<Rightarrow>
          if t = [] then []
          else
            let first_para = hd (py_split [nl, nl] t) in
            (case re_search re_trigger first_para of
               None \<Rightarrow> []
             | Some (gap, trigger, g) \<Rightarrow>
                 let other_opts = re_findall re_opt_ref trigger in
                 if \<exists>x\<in>set other_opts. x \<noteq> opt_name then []
                 else
                   let values = fromkeys (re_findall re_code_token trigger) in
                   if 2 \<le> length values \<and> (\<forall>v\<in>set values. length v < 30) then values else []))"

subsection \<open>\<open>none_is_special_value\<close>\<close>

text \<open>\<^verbatim>\<open>(?<=[.!?])\s+\<close>\<close>

definition re_sentence_end :: re where
  "re_sentence_end = seqs [Behind (\<lambda>c. c \<in> set ''.!?''), Plus is_space]"

text \<open>The loop over the sentences, with its early return.\<close>

fun none_loop :: "string \<Rightarrow> string list \<Rightarrow> bool" where
  "none_loop opt_name [] = False"
| "none_loop opt_name (sentence # rest) =
     (if \<not> contains '':code:`none`'' sentence then none_loop opt_name rest
      else
        let other_opts = re_findall re_opt_ref sentence in
        if \<forall>x\<in>set other_opts. x = opt_name then True else none_loop opt_name rest)"

definition none_is_special_value :: "string \<Rightarrow> string option \<Rightarrow> bool" where
  "none_is_special_value opt_name raw_doc =
     (case raw_doc of None \<Rightarrow> False
      | Some d \<Rightarrow> if d = [] then False else none_loop opt_name (re_split re_sentence_end d))"

subsection \<open>\<open>is_stub_doc\<close>\<close>

text \<open>\<^verbatim>\<open>^See\b.*?\bfor details\.?\s*\<close>\<close>

definition re_see_details :: re where
  "re_see_details =
     seqs [Bol, Lit ''See'', WordB, LazyStar not_nl, WordB, Lit ''for details'',
           Opt (\<lambda>c. c = CHR ''.''), Star is_space]"

definition is_stub_doc :: "string option \<Rightarrow> bool" where
  "is_stub_doc text =
     (case text of None \<Rightarrow> False
      | Some t \<Rightarrow>
          if t = [] then False
          else
            let stripped = re_sub1 re_see_details (\<lambda>g. []) t in
            length (strip stripped) < 20)"

subsection \<open>\<open>parse_options_spec\<close>\<close>

text \<open>\<^verbatim>\<open>([^.]+\.)\s\<close>\<close>

definition re_first_sentence :: re where
  "re_first_sentence = seqs [Grp (seqs [Plus not_dot, Lit ''.'']), Sym is_space]"

text \<open>\<^verbatim>\<open>^(type|default|choices|completion)=\<close>\<close>

definition re_meta_key :: re where
  "re_meta_key =
     seqs [Bol, Grp (alts [Lit ''type'', Lit ''default'', Lit ''choices'', Lit ''completion'']),
           Lit ''='']"

text \<open>
  The variables of \<open>parse_options_spec\<close> that its closure \<open>flush\<close> and its loop share.
  \<open>current_flags\<close> is \<open>None\<close> until the first flag line.
\<close>

record pstate =
  entries :: "(string \<times> string) list"
  current_flags :: "string option"
  current_meta :: "string \<rightharpoonup> string"
  current_desc_lines :: "string list"

text \<open>\<open>d.get(k)\<close> used as a condition: the key is present and its value is not empty.\<close>

definition truthy :: "string option \<Rightarrow> bool" where
  "truthy v = (case v of None \<Rightarrow> False | Some x \<Rightarrow> x \<noteq> [])"

text \<open>
  The local values of \<open>flush\<close>: \<open>first_para\<close> computed from the description lines,
  \<open>flag_str\<close> from the flags and the metadata, and \<open>first_para\<close> after the default is
  appended.
\<close>

definition first_para_of :: "string list \<Rightarrow> string" where
  "first_para_of desc_lines =
     (let desc = strip_rst (Some (strip (py_join [nl] desc_lines)));
          para = (if desc \<noteq> [] then strip (hd (py_split [nl, nl] desc)) else []);
          line = py_join '' '' (split_ws para)
      in if 120 < length line
         then (case re_match re_first_sentence line of None \<Rightarrow> line | Some (w, g) \<Rightarrow> grp_text g)
         else line)"

definition flag_str_of :: "string \<Rightarrow> (string \<rightharpoonup> string) \<Rightarrow> string" where
  "flag_str_of flags meta =
     (if truthy (meta ''choices'')
      then flags @ ''='' @ py_join ''|'' (py_split '','' (the (meta ''choices'')))
      else if meta ''type'' = Some ''list'' then flags @ '' (repeatable)''
      else flags)"

definition with_default :: "(string \<rightharpoonup> string) \<Rightarrow> string \<Rightarrow> string" where
  "with_default meta first_para =
     (if truthy (meta ''default'')
      then first_para @ '' (default: '' @ the (meta ''default'') @ '')''
      else first_para)"

definition flush :: "pstate \<Rightarrow> pstate" where
  "flush st =
     (case current_flags st of None \<Rightarrow> st
      | Some flags \<Rightarrow>
          st\<lparr>entries := entries st @
            [(flag_str_of flags (current_meta st),
              with_default (current_meta st) (first_para_of (current_desc_lines st)))]\<rparr>)"

text \<open>One iteration of the loop over the lines.\<close>

definition step :: "pstate \<Rightarrow> string \<Rightarrow> pstate" where
  "step st line =
     (if strip line = ''#placeholder_for_formatting#'' then st
      else if prefix ''--'' line then
        (flush st)\<lparr>current_flags := Some (py_join '', '' (split_ws line)),
                   current_meta := Map.empty, current_desc_lines := []\<rparr>
      else if current_flags st \<noteq> None \<and> re_match re_meta_key (strip line) \<noteq> None then
        (case partition_eq (strip line) of
           (key, val) \<Rightarrow> st\<lparr>current_meta := (current_meta st)(key \<mapsto> val)\<rparr>)
      else if current_flags st \<noteq> None then
        st\<lparr>current_desc_lines := current_desc_lines st @ [line]\<rparr>
      else st)"

definition init_state :: pstate where
  "init_state = \<lparr>entries = [], current_flags = None, current_meta = Map.empty,
     current_desc_lines = []\<rparr>"

definition parse_options_spec :: "string option \<Rightarrow> (string \<times> string) list" where
  "parse_options_spec spec =
     (case spec of None \<Rightarrow> []
      | Some s \<Rightarrow>
          if s = [] then []
          else entries (flush (foldl step init_state (py_split [nl] s))))"

subsection \<open>\<open>format_flags_doc\<close>\<close>

fun flag_lines :: "(string \<times> string) list \<Rightarrow> string list" where
  "flag_lines [] = []"
| "flag_lines ((flags, desc) # es) =
     (''  '' @ flags) # (if desc \<noteq> [] then [''    '' @ desc] else []) @ flag_lines es"

definition format_flags_doc :: "(string \<times> string) list \<Rightarrow> string" where
  "format_flags_doc es = py_join [nl] (flag_lines es)"

subsection \<open>\<open>enrich_stub_actions\<close>\<close>

text \<open>\<^verbatim>\<open>\.?\s*See\s+.+$\<close>\<close>

definition re_see_clause :: re where
  "re_see_clause =
     seqs [Opt (\<lambda>c. c = CHR ''.''), Star is_space, Lit ''See'', Plus is_space, Plus not_nl, Eol]"

text \<open>\<^verbatim>\<open>^See\b\<close>\<close>

definition re_see_start :: re where
  "re_see_start = seqs [Bol, Lit ''See'', WordB]"

text \<open>
  The exceptions that the external sources can raise. \<open>except Exception\<close> catches each of
  them, \<open>except ImportError\<close> only the first.
\<close>

datatype py_exn = ImportError | IndexError | KeyError | OtherException

record action =
  name :: string
  short :: string
  doc :: string

text \<open>
  The external sources of the enrichment pass, as data:
  \<^item> \<open>launch_options_spec\<close>: the outcome of importing \<open>kitty.launch.options_spec\<close> and calling it;
  \<^item> \<open>shortcut_map\<close>: the items of \<open>definition.shortcut_map\<close>, each action name with the
    \<open>long_text\<close> of its mappings;
  \<^item> \<open>rc_command_for_name\<close>: the outcome of importing \<open>command_for_name\<close>; the function
    gives the \<open>desc\<close> of the command looked up, or the exception of the lookup.
\<close>

record sources =
  launch_options_spec :: "py_exn + string option"
  shortcut_map :: "(string \<times> string option list) list"
  rc_command_for_name :: "py_exn + (string \<Rightarrow> py_exn + string option)"

type_synonym action_map = "string \<rightharpoonup> action"

definition enrich_launch :: "py_exn + string option \<Rightarrow> action_map \<Rightarrow> action_map" where
  "enrich_launch src am =
     (case am ''launch'' of None \<Rightarrow> am
      | Some e \<Rightarrow>
          if is_stub_doc (Some (doc e)) then
            (case src of
               Inl ex \<Rightarrow> am
             | Inr spec \<Rightarrow>
                 let es = parse_options_spec spec in
                 if es \<noteq> [] then am(''launch'' \<mapsto> e\<lparr>doc := ''Flags:'' @ [nl] @ format_flags_doc es\<rparr>)
                 else am)
          else am)"

text \<open>The loop over \<open>shortcut_map\<close>; \<open>mappings[0]\<close> raises on an empty list.\<close>

fun enrich_shortcuts :: "(string \<times> string option list) list \<Rightarrow> action_map \<Rightarrow> py_exn + action_map" where
  "enrich_shortcuts [] am = Inr am"
| "enrich_shortcuts ((nm, mappings) # rest) am =
     (case am nm of None \<Rightarrow> enrich_shortcuts rest am
      | Some e \<Rightarrow>
          if is_stub_doc (Some (doc e)) then
            (case mappings of [] \<Rightarrow> Inl IndexError
             | m # _ \<Rightarrow>
                 if truthy m \<and> \<not> is_stub_doc m
                 then enrich_shortcuts rest (am(nm \<mapsto> e\<lparr>doc := strip_rst m\<rparr>))
                 else enrich_shortcuts rest am)
          else enrich_shortcuts rest am)"

definition rc_name_map :: "string \<rightharpoonup> string" where
  "rc_name_map = map_of [(''disable_ligatures_in'', ''disable_ligatures''),
     (''start_resizing_window'', ''resize_window'')]"

definition rc_name :: "string \<Rightarrow> string" where
  "rc_name nm = (case rc_name_map nm of None \<Rightarrow> nm | Some r \<Rightarrow> r)"

definition enrich_rc_entry :: "(string \<Rightarrow> py_exn + string option) \<Rightarrow> string \<Rightarrow> action \<Rightarrow> action" where
  "enrich_rc_entry f nm e =
     (if \<not> is_stub_doc (Some (doc e)) then e
      else (case f (rc_name nm) of Inl ex \<Rightarrow> e | Inr desc \<Rightarrow> e\<lparr>doc := strip_rst desc\<rparr>))"

definition enrich_rc :: "py_exn + (string \<Rightarrow> py_exn + string option) \<Rightarrow> action_map \<Rightarrow> py_exn + action_map" where
  "enrich_rc imp am =
     (case imp of
        Inl ex \<Rightarrow> if ex = ImportError then Inr am else Inl ex
      | Inr f \<Rightarrow> Inr (\<lambda>nm. map_option (enrich_rc_entry f nm) (am nm)))"

text \<open>The three lookups (lines 202 to 237 of the source).\<close>

definition enrich_sources :: "sources \<Rightarrow> action_map \<Rightarrow> py_exn + action_map" where
  "enrich_sources src am =
     (case enrich_shortcuts (shortcut_map src) (enrich_launch (launch_options_spec src) am) of
        Inl ex \<Rightarrow> Inl ex
      | Inr am2 \<Rightarrow> enrich_rc (rc_command_for_name src) am2)"

text \<open>The final loop (lines 239 to 246 of the source), for one entry.\<close>

definition strip_see_entry :: "action \<Rightarrow> action" where
  "strip_see_entry e =
     e\<lparr>short := strip (re_sub re_see_clause (\<lambda>g. []) (short e)),
       doc := (if doc e \<noteq> [] \<and> re_match re_see_start (doc e) \<noteq> None
               then strip (re_sub1 re_see_details (\<lambda>g. []) (doc e))
               else doc e)\<rparr>"

definition enrich_stub_actions :: "sources \<Rightarrow> action_map \<Rightarrow> py_exn + action_map" where
  "enrich_stub_actions src am =
     (case enrich_sources src am of
        Inl ex \<Rightarrow> Inl ex
      | Inr am3 \<Rightarrow> Inr (\<lambda>nm. map_option strip_see_entry (am3 nm)))"

section \<open>Notions used by the specification\<close>

text \<open>
  The kinds of line that the loop of \<open>parse_options_spec\<close> tells apart after a flag line:
  the formatting placeholder, and a metadata line \<open>key=value\<close> with one of the four keys.
\<close>

definition is_placeholder_line :: "string \<Rightarrow> bool" where
  "is_placeholder_line l = (strip l = ''#placeholder_for_formatting#'')"

definition is_meta_line :: "string \<Rightarrow> bool" where
  "is_meta_line l = (\<not> prefix ''--'' l \<and> re_match re_meta_key (strip l) \<noteq> None)"

definition meta_key :: "string \<Rightarrow> string" where
  "meta_key l = fst (partition_eq (strip l))"

definition meta_val :: "string \<Rightarrow> string" where
  "meta_val l = snd (partition_eq (strip l))"

text \<open>
  \<open>must r u\<close>: the literal parts of the pattern \<open>r\<close> force every match of \<open>r\<close> to contain
  the text \<open>u\<close>.
\<close>

fun must :: "re \<Rightarrow> string \<Rightarrow> bool" where
  "must (Lit v) u = contains u v"
| "must (Seq a b) u = (must a u \<or> must b u)"
| "must (Alt a b) u = (must a u \<and> must b u)"
| "must (Grp a) u = must a u"
| "must r u = False"

text \<open>
  Text free of the markup dialect: every construct that \<open>strip_rst\<close> rewrites needs a
  backtick, an opening angle bracket, a vertical bar or a double colon.
\<close>

definition markup_free :: "string \<Rightarrow> bool" where
  "markup_free t = (CHR ''`'' \<notin> set t \<and> CHR ''<'' \<notin> set t \<and> CHR ''|'' \<notin> set t \<and> \<not> contains ''::'' t)"

text \<open>
  The shapes of an angle-bracketed target: URL-shaped (it starts with \<open>http://\<close> or
  \<open>https://\<close>), and the shape that the target rule of \<open>strip_rst\<close> recognises (a first
  character in \<open>[a-z@/]\<close>, then characters in \<open>[\w. @+=/:-]\<close>).
\<close>

definition url_shaped :: "string \<Rightarrow> bool" where
  "url_shaped t = (prefix ''http://'' t \<or> prefix ''https://'' t)"

definition target_shaped :: "string \<Rightarrow> bool" where
  "target_shaped t = (case t of [] \<Rightarrow> False | c # cs \<Rightarrow> target_start c \<and> (\<forall>x\<in>set cs. target_char x))"

text \<open>The target rule after its leading \<open>\s*\<close>.\<close>

definition target_tail :: re where
  "target_tail = seqs [Lit ''<'', NotAhead re_url_ahead, Sym target_start, Star target_char, Lit ''>'']"

text \<open>
  The rendering of a flag entry in the words of the specification. The first sentence of a
  line is the text up to and including its first period, when that period has text before it
  and whitespace after it; the first paragraph is the text before the first blank-line break;
  metadata counts when its value is not empty; the choices are the comma-separated values
  with bars in place of the commas.
\<close>

definition first_sentence :: "string \<Rightarrow> string option" where
  "first_sentence line =
     (let head = takeWhile (\<lambda>c. c \<noteq> CHR ''.'') line;
          rest = dropWhile (\<lambda>c. c \<noteq> CHR ''.'') line
      in case rest of
           d # c # _ \<Rightarrow> if head \<noteq> [] \<and> is_space c then Some (head @ ''.'') else None
         | _ \<Rightarrow> None)"

fun before_blank :: "string \<Rightarrow> string" where
  "before_blank (a # b # cs) = (if a = nl \<and> b = nl then [] else a # before_blank (b # cs))"
| "before_blank cs = cs"

definition nonempty :: "string option \<Rightarrow> string option" where
  "nonempty v = (case v of None \<Rightarrow> None | Some x \<Rightarrow> if x = [] then None else Some x)"

definition spec_signature :: "string \<Rightarrow> (string \<rightharpoonup> string) \<Rightarrow> string" where
  "spec_signature flags meta =
     flags @
     (case nonempty (meta ''choices'') of
        Some cs \<Rightarrow> ''='' @ map (\<lambda>c. if c = CHR '','' then CHR ''|'' else c) cs
      | None \<Rightarrow> if meta ''type'' = Some ''list'' then '' (repeatable)'' else [])"

definition spec_description :: "(string \<rightharpoonup> string) \<Rightarrow> string list \<Rightarrow> string" where
  "spec_description meta desc_lines =
     (let text = strip_rst (Some (strip (py_join [nl] desc_lines)));
          line = py_join '' '' (split_ws (strip (before_blank text)));
          shown = (if 120 < length line
                   then (case first_sentence line of None \<Rightarrow> line | Some f \<Rightarrow> f)
                   else line)
      in shown @
         (case nonempty (meta ''default'') of
            Some v \<Rightarrow> '' (default: '' @ v @ '')''
          | None \<Rightarrow> []))"

text \<open>
  The trailing reference clause in the words of the specification: an optional period,
  optional whitespace, the word \<open>See\<close>, whitespace, and a non-empty text on one line that
  reaches the end of the field or its final line break. \<open>cut_see\<close> is the text before the
  leftmost such clause.
\<close>

definition line_end :: "string \<Rightarrow> bool" where
  "line_end x = (takeWhile not_nl x \<noteq> [] \<and> (dropWhile not_nl x = [] \<or> dropWhile not_nl x = [nl]))"

fun text_after_ws :: "string \<Rightarrow> bool" where
  "text_after_ws [] = False"
| "text_after_ws (c # cs) = (line_end (c # cs) \<or> (is_space c \<and> text_after_ws cs))"

definition see_tail :: "string \<Rightarrow> bool" where
  "see_tail r = (case r of [] \<Rightarrow> False | c # cs \<Rightarrow> is_space c \<and> text_after_ws cs)"

definition see_clause :: "string \<Rightarrow> bool" where
  "see_clause cl =
     (let a = (case cl of [] \<Rightarrow> [] | c # cs \<Rightarrow> if c = CHR ''.'' then cs else cl);
          b = dropWhile is_space a
      in prefix ''See'' b \<and> see_tail (drop 3 b))"

fun cut_see :: "string \<Rightarrow> string" where
  "cut_see [] = []"
| "cut_see (c # cs) = (if see_clause (c # cs) then [] else c # cut_see cs)"

text \<open>The parts of the pattern of the reference clause, from its end.\<close>

definition see_line :: re where
  "see_line = seqs [Plus not_nl, Eol]"

definition see_rest :: re where
  "see_rest = seqs [Plus is_space, Plus not_nl, Eol]"

definition see_word :: re where
  "see_word = seqs [Lit ''See'', Plus is_space, Plus not_nl, Eol]"

definition see_ws :: re where
  "see_ws = Seq (Star is_space) see_word"

text \<open>The text that \<open>re.sub\<close> returns when every replacement is empty.\<close>

fun flat :: "found list \<times> string \<Rightarrow> string" where
  "flat (fs, t) = concat (map (\<lambda>(gap, w, g). gap) fs) @ t"

text \<open>
  The removal of one leading \<open>See ... for details\<close> clause in the words of the
  specification: the text begins with the word \<open>See\<close>; \<open>for details\<close> is found at its first
  occurrence that begins a word, on the first line; an optional period and the whitespace
  after it go with the clause. Without such a clause the text is unchanged.
\<close>

definition next_char :: "string \<Rightarrow> char option" where
  "next_char s = (case s of [] \<Rightarrow> None | c # cs \<Rightarrow> Some c)"

definition after_details :: "string \<Rightarrow> string" where
  "after_details r =
     dropWhile is_space (case r of [] \<Rightarrow> [] | c # cs \<Rightarrow> if c = CHR ''.'' then cs else r)"

fun find_for_details :: "char option \<Rightarrow> string \<Rightarrow> string option" where
  "find_for_details p [] = None"
| "find_for_details p (c # cs) =
     (if \<not> word_at p \<and> prefix ''for details'' (c # cs) then Some (drop 11 (c # cs))
      else if c = nl then None
      else find_for_details (Some c) cs)"

definition drop_see_prefix :: "string \<Rightarrow> string" where
  "drop_see_prefix t =
     (if prefix ''See'' t \<and> \<not> word_at (next_char (drop 3 t))
      then (case find_for_details (Some CHR ''e'') (drop 3 t) of
              None \<Rightarrow> t
            | Some r \<Rightarrow> after_details r)
      else t)"

text \<open>The parts of the pattern of the leading clause, from its end.\<close>

definition details_end :: re where
  "details_end = seqs [Opt (\<lambda>c. c = CHR ''.''), Star is_space]"

definition details_word :: re where
  "details_word = Seq WordB (Seq (Lit ''for details'') details_end)"

definition details_lazy :: re where
  "details_lazy = Seq (LazyStar not_nl) details_word"

text \<open>The text left by the first candidate, which is the one the matcher takes.\<close>

definition first_rest :: "cand list \<Rightarrow> string option" where
  "first_rest xs = (case xs of [] \<Rightarrow> None | (w, r, g) # _ \<Rightarrow> Some r)"

text \<open>
  The sentences of a text in the words of the specification: the text is split at every run
  of whitespace that follows a period, an exclamation mark or a question mark; the run
  itself belongs to no sentence. The flag of \<open>sentences_from\<close> says that such a run is being
  read.
\<close>

definition terminal :: "char option \<Rightarrow> bool" where
  "terminal p = (case p of None \<Rightarrow> False | Some c \<Rightarrow> c \<in> set ''.!?'')"

fun sentences_from :: "char option \<Rightarrow> bool \<Rightarrow> string \<Rightarrow> string list" where
  "sentences_from p sep [] = [[]]"
| "sentences_from p sep (c # cs) =
     (if is_space c \<and> sep then sentences_from (Some c) True cs
      else if is_space c \<and> terminal p then [] # sentences_from (Some c) True cs
      else (case sentences_from (Some c) False cs of
              [] \<Rightarrow> [[c]]
            | q # qs \<Rightarrow> (c # q) # qs))"

definition sentences :: "string \<Rightarrow> string list" where
  "sentences d = sentences_from None False d"

text \<open>The list that \<open>re.split\<close> returns, from the result of the scan.\<close>

fun pieces :: "found list \<times> string \<Rightarrow> string list" where
  "pieces (fs, t) = map fst fs @ [t]"

section \<open>Properties of the string functions\<close>

lemma strip_Cons_nonspace: "\<not> is_space c \<Longrightarrow> \<exists>t. strip (c # cs) = c # t"
proof -
  assume c: "\<not> is_space c"
  have "dropWhile is_space (rev (c # cs)) = dropWhile is_space (rev cs) @ [c]"
    using c by (simp add: dropWhile_append3)
  then show ?thesis using c by (simp add: strip_def)
qed

lemma split_go_nonempty: "split_go sep k s \<noteq> []"
  by (induction s arbitrary: k) (auto split: list.splits)

lemma py_split_Nil: "py_split sep [] = [[]]"
  by (simp add: py_split_def)

section \<open>Properties of \<open>parse_options_spec\<close>\<close>

lemma strip_flag_not_placeholder:
  "prefix ''--'' l \<Longrightarrow> strip l \<noteq> ''#placeholder_for_formatting#''"
proof -
  assume "prefix ''--'' l"
  then obtain cs where l: "l = CHR ''-'' # cs" by (cases l) auto
  have "\<not> is_space CHR ''-''" by (simp add: is_space_def)
  from strip_Cons_nonspace[OF this, of cs] l show ?thesis by auto
qed

lemma flush_None: "current_flags st = None \<Longrightarrow> flush st = st"
  by (simp add: flush_def)

lemma flush_Some:
  "current_flags st = Some f \<Longrightarrow>
   flush st = st\<lparr>entries := entries st @
     [(flag_str_of f (current_meta st),
       with_default (current_meta st) (first_para_of (current_desc_lines st)))]\<rparr>"
  by (simp add: flush_def)

lemma prefix_flag_str: "prefix f (flag_str_of f m)"
  by (simp add: flag_str_of_def)

lemma step_flag:
  "prefix ''--'' l \<Longrightarrow>
   step st l = (flush st)\<lparr>current_flags := Some (py_join '', '' (split_ws l)),
                   current_meta := Map.empty, current_desc_lines := []\<rparr>"
  using strip_flag_not_placeholder[of l] by (simp add: step_def)

lemma step_other:
  "\<not> prefix ''--'' l \<Longrightarrow>
   entries (step st l) = entries st \<and> current_flags (step st l) = current_flags st"
  by (simp add: step_def split: prod.splits)

lemma step_init: "\<not> prefix ''--'' l \<Longrightarrow> step init_state l = init_state"
  by (simp add: step_def init_state_def)

lemma foldl_step_init:
  "\<forall>l\<in>set pre. \<not> prefix ''--'' l \<Longrightarrow> foldl step init_state pre = init_state"
  by (induction pre rule: rev_induct) (simp_all add: step_init)

text \<open>
  The loop invariant: the entries flushed so far belong to the flag lines read so far
  except the last one, which is the pending flag.
\<close>

lemma loop_invariant:
  "list_all2 (\<lambda>e l. prefix (py_join '', '' (split_ws l)) (fst e))
     (entries (foldl step init_state ls)) (butlast (filter (prefix ''--'') ls)) \<and>
   current_flags (foldl step init_state ls) =
     (if filter (prefix ''--'') ls = [] then None
      else Some (py_join '', '' (split_ws (last (filter (prefix ''--'') ls)))))"
proof (induction ls rule: rev_induct)
  case Nil
  show ?case by (simp add: init_state_def)
next
  case (snoc l ls)
  let ?st = "foldl step init_state ls"
  let ?fl = "filter (prefix ''--'') ls"
  show ?case
  proof (cases "prefix ''--'' l")
    case False
    with snoc step_other[OF False, of ?st] show ?thesis by simp
  next
    case True
    show ?thesis
    proof (cases "?fl = []")
      case Nil: True
      with snoc have "current_flags ?st = None" "entries ?st = []" by auto
      then show ?thesis using True Nil by (simp add: step_flag flush_None)
    next
      case False
      with snoc have cf: "current_flags ?st = Some (py_join '', '' (split_ws (last ?fl)))"
        and es: "list_all2 (\<lambda>e l. prefix (py_join '', '' (split_ws l)) (fst e))
                   (entries ?st) (butlast ?fl)" by auto
      have "list_all2 (\<lambda>e l. prefix (py_join '', '' (split_ws l)) (fst e))
              (entries (flush ?st)) (butlast ?fl @ [last ?fl])"
        unfolding flush_Some[OF cf]
        using es by (auto intro!: list_all2_appendI simp: prefix_flag_str)
      then show ?thesis using True False by (simp add: step_flag)
    qed
  qed
qed

lemma parse_entries:
  "list_all2 (\<lambda>e l. prefix (py_join '', '' (split_ws l)) (fst e))
     (entries (flush (foldl step init_state ls))) (filter (prefix ''--'') ls)"
proof (cases "filter (prefix ''--'') ls = []")
  case True
  then show ?thesis using loop_invariant[of ls] by (simp add: flush_None)
next
  case False
  let ?st = "foldl step init_state ls"
  let ?fl = "filter (prefix ''--'') ls"
  from False loop_invariant[of ls]
  have cf: "current_flags ?st = Some (py_join '', '' (split_ws (last ?fl)))"
    and es: "list_all2 (\<lambda>e l. prefix (py_join '', '' (split_ws l)) (fst e))
               (entries ?st) (butlast ?fl)" by auto
  have "list_all2 (\<lambda>e l. prefix (py_join '', '' (split_ws l)) (fst e))
          (entries (flush ?st)) (butlast ?fl @ [last ?fl])"
    unfolding flush_Some[OF cf]
    using es by (auto intro!: list_all2_appendI simp: prefix_flag_str)
  then show ?thesis using False by simp
qed

lemma parse_options_spec_unfold:
  "parse_options_spec (Some t) = entries (flush (foldl step init_state (py_split [nl] t)))"
proof (cases "t = []")
  case True
  have "step init_state [] = init_state" by (rule step_init) simp
  then show ?thesis using True
    by (simp add: parse_options_spec_def py_split_Nil flush_None) (simp add: init_state_def flush_None)
next
  case False
  then show ?thesis by (simp add: parse_options_spec_def)
qed

text \<open>
  Claim C10. For every spec string, \<open>parse_options_spec\<close> returns exactly one entry per
  input line that starts with \<open>--\<close>, in the order of these lines, and the signature of each
  entry begins with the synonyms of its line; the lines before the first flag line contribute
  to no entry: a spec and the same spec without such leading lines give the same entries.
\<close>

theorem parse_options_spec_one_entry_per_flag_line:
  "length (parse_options_spec (Some s)) = length (filter (prefix ''--'') (py_split [nl] s)) \<and>
   list_all2 (\<lambda>e l. prefix (py_join '', '' (split_ws l)) (fst e))
     (parse_options_spec (Some s)) (filter (prefix ''--'') (py_split [nl] s)) \<and>
   (\<forall>pre s'. py_split [nl] s = pre @ py_split [nl] s' \<and> (\<forall>l\<in>set pre. \<not> prefix ''--'' l) \<longrightarrow>
      parse_options_spec (Some s) = parse_options_spec (Some s'))"
proof -
  have a: "list_all2 (\<lambda>e l. prefix (py_join '', '' (split_ws l)) (fst e))
     (parse_options_spec (Some s)) (filter (prefix ''--'') (py_split [nl] s))"
    unfolding parse_options_spec_unfold by (rule parse_entries)
  have b: "parse_options_spec (Some s) = parse_options_spec (Some s')"
    if "py_split [nl] s = pre @ py_split [nl] s'" "\<forall>l\<in>set pre. \<not> prefix ''--'' l" for pre s'
    unfolding parse_options_spec_unfold using that by (simp add: foldl_step_init)
  from a have "length (parse_options_spec (Some s))
      = length (filter (prefix ''--'') (py_split [nl] s))"
    by (rule list_all2_lengthD)
  with a b show ?thesis by blast
qed

theorem parse_options_spec_one_entry_per_flag_line_witness:
  "length (parse_options_spec
     (Some (''type=list'' @ [nl] @ ''--a'' @ [nl] @ ''text'' @ [nl] @ ''--b c''))) = 2 \<and>
   parse_options_spec (Some (''type=list'' @ [nl] @ ''--a'' @ [nl] @ ''text'' @ [nl] @ ''--b c'')) =
   parse_options_spec (Some (''--a'' @ [nl] @ ''text'' @ [nl] @ ''--b c''))"
proof -
  let ?s = "''type=list'' @ [nl] @ ''--a'' @ [nl] @ ''text'' @ [nl] @ ''--b c''"
  let ?s' = "''--a'' @ [nl] @ ''text'' @ [nl] @ ''--b c''"
  have h1: "py_split [nl] ?s = [''type=list''] @ py_split [nl] ?s'"
    by code_simp
  have h2: "\<forall>l\<in>set [''type=list'']. \<not> prefix ''--'' l"
    by simp
  have h3: "length (filter (prefix ''--'') (py_split [nl] ?s)) = 2"
    by code_simp
  from parse_options_spec_one_entry_per_flag_line[of ?s] h1 h2
  have "parse_options_spec (Some ?s) = parse_options_spec (Some ?s')"
    by blast
  with parse_options_spec_one_entry_per_flag_line[of ?s] h3 show ?thesis by simp
qed

section \<open>Flags without description\<close>

lemma first_para_of_Nil: "first_para_of [] = []"
  by (simp add: first_para_of_def strip_def strip_rst_def split_ws_def)

lemma entries_flush_prefix: "prefix (entries st) (entries (flush st))"
  by (cases "current_flags st") (simp_all add: flush_None flush_Some)

lemma entries_step_prefix: "prefix (entries st) (entries (step st l))"
proof (cases "prefix ''--'' l")
  case True
  then show ?thesis by (simp add: step_flag entries_flush_prefix)
next
  case False
  then show ?thesis by (simp add: step_other)
qed

lemma entries_foldl_prefix: "prefix (entries st) (entries (foldl step st ls))"
proof (induction ls rule: rev_induct)
  case Nil
  show ?case by simp
next
  case (snoc l ls)
  then show ?case using entries_step_prefix[of "foldl step st ls" l]
    by (auto intro: prefix_order.trans)
qed

lemma prefix_nth: "prefix xs ys \<Longrightarrow> i < length xs \<Longrightarrow> ys ! i = xs ! i"
  by (auto simp: prefix_def nth_append)

lemma step_placeholder: "is_placeholder_line l \<Longrightarrow> step st l = st"
  by (simp add: step_def is_placeholder_line_def)

lemma step_meta:
  "is_meta_line l \<Longrightarrow> \<not> is_placeholder_line l \<Longrightarrow> current_flags st \<noteq> None \<Longrightarrow>
   step st l = st\<lparr>current_meta := (current_meta st)(meta_key l \<mapsto> meta_val l)\<rparr>"
  by (simp add: step_def is_meta_line_def is_placeholder_line_def meta_key_def meta_val_def
      split: prod.splits)

lemma meta_loop:
  assumes "\<forall>m\<in>set metas. is_placeholder_line m \<or>
             (is_meta_line m \<and> (meta_key m = ''default'' \<longrightarrow> meta_val m = []))"
    and "current_flags st \<noteq> None" and "\<not> truthy (current_meta st ''default'')"
  shows "entries (foldl step st metas) = entries st \<and>
         current_flags (foldl step st metas) = current_flags st \<and>
         current_desc_lines (foldl step st metas) = current_desc_lines st \<and>
         \<not> truthy (current_meta (foldl step st metas) ''default'')"
  using assms
proof (induction metas rule: rev_induct)
  case Nil
  then show ?case by simp
next
  case (snoc m metas)
  let ?st = "foldl step st metas"
  from snoc have ih: "entries ?st = entries st" "current_flags ?st = current_flags st"
    "current_desc_lines ?st = current_desc_lines st" "\<not> truthy (current_meta ?st ''default'')"
    by auto
  show ?case
  proof (cases "is_placeholder_line m")
    case True
    then show ?thesis using ih by (simp add: step_placeholder)
  next
    case False
    with snoc.prems have m: "is_meta_line m" "meta_key m = ''default'' \<longrightarrow> meta_val m = []"
      by auto
    have "current_flags ?st \<noteq> None" using ih snoc.prems by simp
    from step_meta[OF m(1) False this] ih m(2) show ?thesis
      by (auto simp: truthy_def)
  qed
qed

text \<open>
  Claim C9, amended. A flag line followed, up to the next flag line or the end of the input,
  only by placeholder lines and by metadata lines none of which gives a non-empty
  \<open>default\<close>, yields an entry whose description is the empty string. The entry is the one
  at the position of the flag line among the flag lines.
\<close>

theorem flag_without_description_is_empty:
  assumes split: "py_split [nl] s = pre @ fl # metas @ rest"
    and fl: "prefix ''--'' fl"
    and metas: "\<forall>m\<in>set metas. is_placeholder_line m \<or>
             (is_meta_line m \<and> (meta_key m = ''default'' \<longrightarrow> meta_val m = []))"
    and rest: "rest = [] \<or> prefix ''--'' (hd rest)"
  shows "length (filter (prefix ''--'') pre) < length (parse_options_spec (Some s)) \<and>
         snd (parse_options_spec (Some s) ! length (filter (prefix ''--'') pre)) = []"
proof -
  let ?n = "length (filter (prefix ''--'') pre)"
  let ?st0 = "foldl step init_state pre"
  let ?st1 = "step ?st0 fl"
  let ?st2 = "foldl step ?st1 metas"
  have n: "length (entries (flush ?st0)) = ?n"
    using parse_entries[of pre] by (simp add: list_all2_lengthD)
  have st1: "entries ?st1 = entries (flush ?st0)" "current_flags ?st1 \<noteq> None"
    "current_desc_lines ?st1 = []" "\<not> truthy (current_meta ?st1 ''default'')"
    using fl by (simp_all add: step_flag truthy_def)
  from meta_loop[OF metas st1(2) st1(4)] st1
  have st2: "entries ?st2 = entries (flush ?st0)" "current_flags ?st2 \<noteq> None"
    "current_desc_lines ?st2 = []" "\<not> truthy (current_meta ?st2 ''default'')"
    by simp_all
  from st2(2) obtain f where f: "current_flags ?st2 = Some f" by auto
  have fl2: "flush ?st2 = ?st2\<lparr>entries := entries ?st2 @ [(flag_str_of f (current_meta ?st2), [])]\<rparr>"
    using flush_Some[OF f] st2 by (simp add: with_default_def first_para_of_Nil)
  have ent: "entries (flush ?st2) ! ?n = (flag_str_of f (current_meta ?st2), [])"
    "?n < length (entries (flush ?st2))"
    using fl2 st2(1) n by (simp_all add: nth_append)
  have unf: "parse_options_spec (Some s) = entries (flush (foldl step ?st2 rest))"
    unfolding parse_options_spec_unfold split by simp
  have "prefix (entries (flush ?st2)) (parse_options_spec (Some s))"
  proof (cases rest)
    case Nil
    then show ?thesis using unf by simp
  next
    case (Cons r rs)
    with rest have r: "prefix ''--'' r" by simp
    have "prefix (entries (flush ?st2)) (entries (step ?st2 r))"
      using r by (simp add: step_flag)
    also have "prefix \<dots> (entries (foldl step (step ?st2 r) rs))"
      by (rule entries_foldl_prefix)
    also have "prefix \<dots> (entries (flush (foldl step (step ?st2 r) rs)))"
      by (rule entries_flush_prefix)
    finally show ?thesis using unf Cons by simp
  qed
  from prefix_nth[OF this ent(2)] ent prefix_length_le[OF this] show ?thesis by simp
qed

theorem flag_without_description_is_empty_witness:
  "prefix ''--'' ''--a'' \<and> is_meta_line ''type=list'' \<and>
   snd (parse_options_spec
     (Some (''junk'' @ [nl] @ ''--a'' @ [nl] @ ''type=list'' @ [nl] @ ''--b'')) ! 0) = []"
proof -
  let ?s = "''junk'' @ [nl] @ ''--a'' @ [nl] @ ''type=list'' @ [nl] @ ''--b''"
  have 1: "py_split [nl] ?s = [''junk''] @ ''--a'' # [''type=list''] @ [''--b'']"
    by code_simp
  have 2: "prefix ''--'' ''--a''" by simp
  have 3: "\<forall>m\<in>set [''type=list'']. is_placeholder_line m \<or>
             (is_meta_line m \<and> (meta_key m = ''default'' \<longrightarrow> meta_val m = []))"
    by code_simp
  have 4: "[''--b''] = [] \<or> prefix ''--'' (hd [''--b''])" by simp
  have 5: "length (filter (prefix ''--'') [''junk'']) = 0" by simp
  have 6: "is_meta_line ''type=list''" by code_simp
  from flag_without_description_is_empty[OF 1 2 3 4] 5 6 show ?thesis by simp
qed

text \<open>
  Claim C9 as stated fails when the flag has \<open>default\<close> metadata: no description line is
  accumulated, and the description is the default suffix.
\<close>

theorem flag_without_description_counterexample:
  "parse_options_spec (Some (''--color'' @ [nl] @ ''default=red'')) =
     [(''--color'', '' (default: red)'')] \<and>
   snd (parse_options_spec (Some (''--color'' @ [nl] @ ''default=red'')) ! 0) \<noteq> []"
  by code_simp


section \<open>Properties of the matcher\<close>

lemma contains_sublist: "contains u s = sublist u s"
  by (induction s) (auto simp: sublist_Cons_right)

lemma contains_single: "contains [c] s = (c \<in> set s)"
  by (induction s) auto

lemma runs_append: "(w, r) \<in> set (runs P s) \<Longrightarrow> s = w @ r"
  by (induction s arbitrary: w r) (auto split: if_splits)

lemma runs_nonempty: "runs P s \<noteq> []"
  by (cases s) auto

lemma ms_append_must:
  "(w, r, g) \<in> set (ms a p s) \<Longrightarrow> s = w @ r \<and> (must a u \<longrightarrow> sublist u w)"
proof (induction a arbitrary: p s w r g)
  case (Lit v)
  then show ?case by (auto simp: contains_sublist prefix_def split: if_splits)
next
  case (LitCI v)
  then show ?case by (auto split: if_splits)
next
  case (Sym P)
  then show ?case by (auto split: list.splits if_splits)
next
  case (Seq a b)
  from Seq.prems obtain w1 s1 g1 w2 g2 where
    a: "(w1, s1, g1) \<in> set (ms a p s)" and b: "(w2, r, g2) \<in> set (ms b (last_char p w1) s1)"
    and w: "w = w1 @ w2"
    by auto
  from Seq.IH(1)[OF a] Seq.IH(2)[OF b] w show ?case
    by (auto intro: sublist_appendI simp: sublist_append)
next
  case (Alt a b)
  then show ?case by auto
next
  case (Star P)
  then show ?case by (auto simp: no_grp_def dest: runs_append)
next
  case (Plus P)
  then have "(w, r) \<in> set (tl (runs P s))" by (auto simp: no_grp_def)
  then have "(w, r) \<in> set (runs P s)" by (meson list.set_sel(2) runs_nonempty)
  then show ?case by (auto dest: runs_append)
next
  case (LazyStar P)
  then show ?case by (auto simp: no_grp_def dest: runs_append)
next
  case (Opt P)
  then have "(w, r) \<in> set (take 2 (runs P s))" by (auto simp: no_grp_def)
  then have "(w, r) \<in> set (runs P s)" by (meson in_set_takeD)
  then show ?case by (auto dest: runs_append)
next
  case (Grp a)
  then show ?case by auto
next
  case (NotAhead a)
  then show ?case by (auto split: if_splits)
next
  case (Behind P)
  then show ?case by (auto split: option.splits if_splits)
next
  case WordB
  then show ?case by (auto split: if_splits)
next
  case Bol
  then show ?case by (auto split: if_splits)
next
  case Eol
  then show ?case by (auto split: if_splits)
qed

lemma ms_no_match:
  assumes "must a u" and "\<not> sublist u s"
  shows "ms a p s = []"
proof (rule ccontr)
  assume "ms a p s \<noteq> []"
  then obtain w r g where "(w, r, g) \<in> set (ms a p s)"
    by (cases "ms a p s") auto
  from ms_append_must[OF this, of u] assms show False
    by (auto simp: sublist_append)
qed

lemma scan_no_match:
  assumes "must a u" and "\<not> sublist u s"
  shows "scan a 0 p s = ([], s)"
  using assms(2)
proof (induction s arbitrary: p)
  case Nil
  then show ?case using ms_no_match[OF assms(1), of "[]"] by simp
next
  case (Cons c cs)
  then have "\<not> sublist u cs" by (auto simp: sublist_Cons_right)
  with Cons ms_no_match[OF assms(1) Cons.prems] show ?case by simp
qed

lemma re_sub_no_match:
  "must a u \<Longrightarrow> \<not> sublist u s \<Longrightarrow> re_sub a f s = s"
  by (simp add: re_sub_def scan_no_match)


section \<open>\<open>strip_rst\<close> on text without markup\<close>

lemma strip_decomp:
  "t = takeWhile is_space t @ strip t @ rev (takeWhile is_space (rev (dropWhile is_space t)))"
proof -
  let ?d = "dropWhile is_space t"
  have "rev ?d = takeWhile is_space (rev ?d) @ dropWhile is_space (rev ?d)" by simp
  then have "?d = rev (dropWhile is_space (rev ?d)) @ rev (takeWhile is_space (rev ?d))"
    by (metis rev_append rev_rev_ident)
  then have "takeWhile is_space t @ ?d = takeWhile is_space t @ strip t @ rev (takeWhile is_space (rev ?d))"
    by (simp add: strip_def)
  then show ?thesis by simp
qed

lemma sublist_strip: "sublist (strip t) t"
  using strip_decomp[of t] by (metis sublist_appendI)

lemma markup_free_strip: "markup_free t \<Longrightarrow> markup_free (strip t)"
proof -
  assume a: "markup_free t"
  have "set (strip t) \<subseteq> set t" using sublist_strip[of t] by (rule set_mono_sublist)
  moreover have "\<not> sublist ''::'' (strip t)"
    using a sublist_strip[of t] by (auto simp: markup_free_def contains_sublist dest: sublist_order.order.trans)
  ultimately show ?thesis using a by (auto simp: markup_free_def contains_sublist)
qed

lemma must_rules:
  "must re_verbatim_role ''`''" "must re_xref_role ''`''" "must re_inline_role ''`''"
  "must re_target ''<''" "must re_double_backtick ''`''" "must re_ref_underscore ''`''"
  "must re_note ''::''" "must re_versionadded ''::''" "must re_code_block ''::''"
  "must re_substitution ''|''" "must re_literal_block ''::''"
  by (simp_all add: re_verbatim_role_def re_xref_role_def re_inline_role_def re_target_def
      re_double_backtick_def re_ref_underscore_def re_note_def re_versionadded_def
      re_code_block_def re_substitution_def re_literal_block_def seqs_def)

lemma not_sublist_single: "(c::char) \<notin> set t \<Longrightarrow> \<not> sublist [c] t"
  using contains_single[of c t] by (simp add: contains_sublist)

lemma strip_rst_markup_free:
  assumes "markup_free t"
  shows "strip_rst (Some t) = strip t"
proof -
  from assms have bt: "\<not> sublist ''`'' t" and lt: "\<not> sublist ''<'' t"
    and bar: "\<not> sublist ''|'' t" and cc: "\<not> sublist ''::'' t"
    by (simp_all add: markup_free_def not_sublist_single contains_sublist)
  show ?thesis
  proof (cases "t = []")
    case True
    then show ?thesis by (simp add: strip_rst_def strip_def)
  next
    case False
    then show ?thesis
      by (simp add: strip_rst_def re_sub_no_match[OF must_rules(1) bt]
          re_sub_no_match[OF must_rules(2) bt] re_sub_no_match[OF must_rules(3) bt]
          re_sub_no_match[OF must_rules(4) lt] re_sub_no_match[OF must_rules(5) bt]
          re_sub_no_match[OF must_rules(6) bt] re_sub_no_match[OF must_rules(7) cc]
          re_sub_no_match[OF must_rules(8) cc] re_sub_no_match[OF must_rules(9) cc]
          re_sub_no_match[OF must_rules(10) bar] re_sub_no_match[OF must_rules(11) cc])
  qed
qed

lemma strip_idem: "strip (strip t) = strip t"
proof -
  let ?d = "dropWhile is_space t"
  let ?e = "dropWhile is_space (rev ?d)"
  have 1: "dropWhile is_space (rev ?e) = rev ?e"
  proof (cases "rev ?e")
    case Nil
    then show ?thesis by (simp only: dropWhile.simps)
  next
    case (Cons c cs)
    then have e: "?e \<noteq> []" by (metis rev_is_Nil_conv list.distinct(1))
    have d: "?d \<noteq> []"
    proof
      assume "?d = []"
      then have "?e = []" by (simp only: rev.simps dropWhile.simps)
      with e show False by contradiction
    qed
    then have "\<not> is_space (hd ?d)" by (rule hd_dropWhile)
    have "rev ?d = takeWhile is_space (rev ?d) @ ?e" by simp
    then have "?d = rev ?e @ rev (takeWhile is_space (rev ?d))" by (metis rev_append rev_rev_ident)
    then have "hd ?d = c" using Cons by (metis append_Cons list.sel(1))
    with \<open>\<not> is_space (hd ?d)\<close> Cons show ?thesis by simp
  qed
  have 2: "dropWhile is_space ?e = ?e" by (simp add: dropWhile_idem)
  have "strip (strip t) = rev (dropWhile is_space (rev (dropWhile is_space (rev ?e))))"
    by (simp only: strip_def)
  also have "\<dots> = rev (dropWhile is_space (rev (rev ?e)))" by (simp only: 1)
  also have "\<dots> = rev (dropWhile is_space ?e)" by (simp only: rev_rev_ident)
  also have "\<dots> = rev ?e" by (simp only: 2)
  finally show ?thesis by (simp only: strip_def)
qed

text \<open>
  Claim C7, amended. On every text free of the markup dialect, \<open>strip_rst\<close> returns the
  text without its leading and trailing whitespace and is idempotent; such a text with no
  leading or trailing whitespace is a fixed point.
\<close>

theorem strip_rst_markup_free_idempotent:
  assumes "markup_free t"
  shows "strip_rst (Some t) = strip t \<and>
         strip_rst (Some (strip_rst (Some t))) = strip_rst (Some t) \<and>
         (strip t = t \<longrightarrow> strip_rst (Some t) = t)"
  using assms strip_rst_markup_free[of t] strip_rst_markup_free[of "strip t"] markup_free_strip[of t]
  by (simp add: strip_idem)

theorem strip_rst_markup_free_idempotent_witness:
  "markup_free ''hello world'' \<and> strip_rst (Some ''hello world'') = ''hello world'' \<and>
   strip_rst (Some (strip_rst (Some ''hello world''))) = strip_rst (Some ''hello world'')"
proof -
  have 1: "markup_free ''hello world''" by code_simp
  have 2: "strip ''hello world'' = ''hello world''" by code_simp
  from strip_rst_markup_free_idempotent[OF 1] 1 2 show ?thesis by simp
qed

text \<open>
  Claim C7 as stated fails: a plain text that begins with a space is not a fixed point.
\<close>

theorem strip_rst_fixed_point_counterexample:
  "markup_free '' hello'' \<and> strip_rst (Some '' hello'') = ''hello'' \<and> strip_rst (Some '' hello'') \<noteq> '' hello''"
  by code_simp

section \<open>Greedy repetition before a literal\<close>

lemma concat_map_rev_runs:
  assumes "\<And>w c cs. P c \<Longrightarrow> f (w, c # cs) = []"
  shows "concat (map f (rev (runs P s))) = f (takeWhile P s, dropWhile P s)"
  using assms
proof (induction s arbitrary: f)
  case Nil
  show ?case by simp
next
  case (Cons c cs)
  show ?case
  proof (cases "P c")
    case False
    then show ?thesis by simp
  next
    case True
    have "concat (map (\<lambda>x. f (c # fst x, snd x)) (rev (runs P cs)))
          = f (c # takeWhile P cs, dropWhile P cs)"
      using Cons.IH[of "\<lambda>x. f (c # fst x, snd x)"] Cons.prems by simp
    then show ?thesis using True Cons.prems[OF True]
      by (simp add: rev_map comp_def case_prod_unfold)
  qed
qed

lemma merge_grp_None: "merge_grp None g = g"
  by (cases g) (simp_all add: merge_grp_def)

lemma ms_Seq_Star:
  assumes "\<And>q c cs. P c \<Longrightarrow> ms b q (c # cs) = []"
  shows "ms (Seq (Star P) b) p s =
     map (\<lambda>(w2, s2, g2). (takeWhile P s @ w2, s2, g2))
       (ms b (last_char p (takeWhile P s)) (dropWhile P s))"
proof -
  let ?f = "\<lambda>x. map (\<lambda>(w2, s2, g2). (fst x @ w2, s2, g2)) (ms b (last_char p (fst x)) (snd x))"
  have "ms (Seq (Star P) b) p s = concat (map ?f (rev (runs P s)))"
    by (simp add: comp_def no_grp_def case_prod_unfold merge_grp_None)
  also have "\<dots> = ?f (takeWhile P s, dropWhile P s)"
    by (rule concat_map_rev_runs) (simp add: assms)
  finally show ?thesis by simp
qed

lemma ms_Seq_Plus:
  assumes "\<And>q c cs. P c \<Longrightarrow> ms b q (c # cs) = []"
  shows "ms (Seq (Plus P) b) p s =
     (if takeWhile P s = [] then []
      else map (\<lambda>(w2, s2, g2). (takeWhile P s @ w2, s2, g2))
             (ms b (last_char p (takeWhile P s)) (dropWhile P s)))"
proof (cases s)
  case Nil
  then show ?thesis by simp
next
  case (Cons c cs)
  show ?thesis
  proof (cases "P c")
    case False
    then show ?thesis using Cons by simp
  next
    case True
    let ?f = "\<lambda>x. map (\<lambda>(w2, s2, g2). (fst x @ w2, s2, g2)) (ms b (last_char p (fst x)) (snd x))"
    have "ms (Seq (Plus P) b) p s = concat (map (\<lambda>x. ?f (c # fst x, snd x)) (rev (runs P cs)))"
      using Cons True
      by (simp add: comp_def no_grp_def case_prod_unfold merge_grp_None rev_map)
    also have "\<dots> = ?f (c # takeWhile P cs, dropWhile P cs)"
      using concat_map_rev_runs[of P "\<lambda>x. ?f (c # fst x, snd x)" cs] assms by simp
    finally show ?thesis using Cons True by simp
  qed
qed

text \<open>After a match, the scan skips the rest of the matched text.\<close>

lemma scan_skip: "scan r (length w) p (w @ s) = scan r 0 (last_char p w) s"
proof (induction w arbitrary: p)
  case Nil
  show ?case by (simp add: last_char_def)
next
  case (Cons c cs)
  have "last_char (Some c) cs = last_char p (c # cs)" by (simp add: last_char_def)
  with Cons[of "Some c"] show ?case by simp
qed


section \<open>The target rule of \<open>strip_rst\<close>\<close>

lemma ms_url_ahead: "(ms re_url_ahead p z = []) = (\<not> url_shaped z)"
proof (cases "prefix ''http'' z")
  case False
  then show ?thesis by (auto simp: re_url_ahead_def seqs_def url_shaped_def prefix_def)
next
  case True
  then obtain r where z: "z = ''http'' @ r" by (auto simp: prefix_def)
  show ?thesis
  proof (cases r)
    case Nil
    then show ?thesis using z by (simp add: re_url_ahead_def seqs_def url_shaped_def no_grp_def)
  next
    case (Cons c cs)
    then show ?thesis using z
      by (cases cs) (auto simp: re_url_ahead_def seqs_def url_shaped_def no_grp_def last_char_def merge_grp_def)
  qed
qed

lemma re_target_unfold: "re_target = Seq (Star is_space) target_tail"
  by (simp add: re_target_def target_tail_def seqs_def)

lemma target_tail_space: "is_space c \<Longrightarrow> ms target_tail q (c # cs) = []"
  by (auto simp: target_tail_def seqs_def is_space_def)

lemma ms_re_target:
  "ms re_target p s =
     map (\<lambda>(w2, s2, g2). (takeWhile is_space s @ w2, s2, g2))
       (ms target_tail (last_char p (takeWhile is_space s)) (dropWhile is_space s))"
  unfolding re_target_unfold by (rule ms_Seq_Star) (rule target_tail_space)

lemma target_tail_not_lt: "c \<noteq> CHR ''<'' \<Longrightarrow> ms target_tail q (c # cs) = []"
  by (simp add: target_tail_def seqs_def)

lemma target_tail_Nil: "ms target_tail q [] = []"
  by (simp add: target_tail_def seqs_def)

lemma target_tail_url: "url_shaped zs \<Longrightarrow> ms target_tail q (CHR ''<'' # zs) = []"
  using ms_url_ahead[of "Some CHR ''<''" zs]
  by (simp add: target_tail_def seqs_def last_char_def)

lemma gt_not_target_char: "\<not> target_char CHR ''>''"
  by (simp add: target_char_def is_word_def)

lemma ms_target_body:
  assumes "\<forall>x\<in>set cs. target_char x"
  shows "ms (Seq (Star target_char) (Seq (Lit ''>'') (Lit []))) q (cs @ ''>'') = [(cs @ ''>'', [], None)]"
proof -
  have tw: "takeWhile target_char (cs @ ''>'') = cs" "dropWhile target_char (cs @ ''>'') = ''>''"
    using assms gt_not_target_char by (simp_all add: takeWhile_append2 dropWhile_append2)
  have "\<And>q c cs. target_char c \<Longrightarrow> ms (Seq (Lit ''>'') (Lit [])) q (c # cs) = []"
    using gt_not_target_char by auto
  from ms_Seq_Star[of target_char "Seq (Lit ''>'') (Lit [])", OF this] tw
  show ?thesis by (simp add: merge_grp_def)
qed

lemma target_tail_match:
  assumes "target_shaped t" and "\<not> url_shaped t"
  shows "ms target_tail q (CHR ''<'' # t @ ''>'') = [(CHR ''<'' # t @ ''>'', [], None)]"
proof -
  from assms(1) obtain c cs where t: "t = c # cs" "target_start c" "\<forall>x\<in>set cs. target_char x"
    by (auto simp: target_shaped_def split: list.splits)
  have "\<not> url_shaped (c # cs @ ''>'')"
  proof
    assume "url_shaped (c # cs @ ''>'')"
    then have "prefix ''http://'' ((c # cs) @ ''>'') \<or> prefix ''https://'' ((c # cs) @ ''>'')"
      by (simp add: url_shaped_def)
    then have "prefix ''http://'' (c # cs) \<or> prefix ''https://'' (c # cs)"
      unfolding prefix_snoc by auto
    with assms(2) show False unfolding t(1) url_shaped_def by blast
  qed
  then have ua: "ms re_url_ahead (Some CHR ''<'') (c # cs @ ''>'') = []"
    by (simp add: ms_url_ahead)
  have "ms target_tail q (CHR ''<'' # c # cs @ ''>'') = [(CHR ''<'' # c # cs @ ''>'', [], None)]"
    unfolding target_tail_def seqs_def
    using ua t(2) ms_target_body[OF t(3)]
    by (simp add: last_char_def merge_grp_def)
  then show ?thesis using t(1) by simp
qed


lemma ms_re_target_none:
  assumes "\<forall>ys zs. z = ys @ CHR ''<'' # zs \<longrightarrow> url_shaped zs"
  shows "ms re_target p z = []"
proof (cases "dropWhile is_space z")
  case Nil
  show ?thesis unfolding ms_re_target Nil by (simp add: target_tail_Nil)
next
  case (Cons c cs)
  show ?thesis
  proof (cases "c = CHR ''<''")
    case False
    show ?thesis unfolding ms_re_target Cons using False by (simp add: target_tail_not_lt)
  next
    case True
    have "z = takeWhile is_space z @ CHR ''<'' # cs"
      using Cons True takeWhile_dropWhile_id[of is_space z] by simp
    with assms have "url_shaped cs" by blast
    then show ?thesis unfolding ms_re_target Cons True by (simp add: target_tail_url)
  qed
qed

lemma scan_re_target_none:
  assumes "\<forall>ys zs. z = ys @ CHR ''<'' # zs \<longrightarrow> url_shaped zs"
  shows "scan re_target 0 p z = ([], z)"
  using assms
proof (induction z arbitrary: p)
  case Nil
  then show ?case using ms_re_target_none[of "[]"] by simp
next
  case (Cons c cs)
  have "\<forall>ys zs. cs = ys @ CHR ''<'' # zs \<longrightarrow> url_shaped zs"
  proof (intro allI impI)
    fix ys zs assume "cs = ys @ CHR ''<'' # zs"
    then have "c # cs = (c # ys) @ CHR ''<'' # zs" by simp
    with Cons.prems show "url_shaped zs" by blast
  qed
  with Cons.IH have "scan re_target 0 (Some c) cs = ([], cs)" by blast
  with ms_re_target_none[OF Cons.prems] show ?case by simp
qed

lemma scan_re_target_match:
  assumes "target_shaped t" and "\<not> url_shaped t" and "CHR ''<'' \<notin> set x"
  shows "\<exists>a b. x = a @ b \<and> (\<forall>c\<in>set b. is_space c) \<and>
           scan re_target 0 p (x @ CHR ''<'' # t @ ''>'') = ([(a, b @ CHR ''<'' # t @ ''>'', None)], [])"
  using assms(3)
proof (induction x arbitrary: p)
  case Nil
  have "ms re_target p (CHR ''<'' # t @ ''>'') = [(CHR ''<'' # t @ ''>'', [], None)]"
    by (simp add: ms_re_target target_tail_match[OF assms(1,2)] is_space_def)
  moreover have "scan re_target (length (t @ ''>'')) (Some CHR ''<'') ((t @ ''>'') @ []) = ([], [])"
    unfolding scan_skip using ms_re_target_none[of "[]"] by simp
  ultimately show ?case by simp
next
  case (Cons c cs)
  show ?case
  proof (cases "\<forall>y\<in>set (c # cs). is_space y")
    case True
    have tw: "takeWhile is_space ((c # cs) @ CHR ''<'' # t @ ''>'') = c # cs"
      "dropWhile is_space ((c # cs) @ CHR ''<'' # t @ ''>'') = CHR ''<'' # t @ ''>''"
      using True by (simp_all add: takeWhile_append2 dropWhile_append2 is_space_def)
    have m: "ms re_target p ((c # cs) @ CHR ''<'' # t @ ''>'') = [((c # cs) @ CHR ''<'' # t @ ''>'', [], None)]"
      unfolding ms_re_target tw by (simp add: target_tail_match[OF assms(1,2)])
    have "scan re_target (length (cs @ CHR ''<'' # t @ ''>'')) (Some c) ((cs @ CHR ''<'' # t @ ''>'') @ []) = ([], [])"
      unfolding scan_skip using ms_re_target_none[of "[]"] by simp
    with m have "scan re_target 0 p ((c # cs) @ CHR ''<'' # t @ ''>'') = ([([], (c # cs) @ CHR ''<'' # t @ ''>'', None)], [])"
      by simp
    with True show ?thesis by (intro exI[of _ "[]"] exI[of _ "c # cs"]) simp
  next
    case False
    then obtain d ds where d: "dropWhile is_space (c # cs) = d # ds"
      by (metis dropWhile_eq_Nil_conv list.exhaust)
    then have "d \<in> set (c # cs)" by (metis list.set_intros(1) set_dropWhileD)
    with Cons.prems have dlt: "d \<noteq> CHR ''<''" by auto
    from False obtain y where "y \<in> set (c # cs)" "\<not> is_space y" by blast
    then have "dropWhile is_space ((c # cs) @ CHR ''<'' # t @ ''>'')
        = dropWhile is_space (c # cs) @ CHR ''<'' # t @ ''>''"
      by (rule dropWhile_append1)
    then have dw: "dropWhile is_space ((c # cs) @ CHR ''<'' # t @ ''>'') = d # ds @ CHR ''<'' # t @ ''>''"
      by (simp only: d append_Cons)
    have m: "ms re_target p ((c # cs) @ CHR ''<'' # t @ ''>'') = []"
      unfolding ms_re_target dw using dlt by (simp add: target_tail_not_lt)
    from Cons obtain a b where ab: "cs = a @ b" "\<forall>c\<in>set b. is_space c"
      "scan re_target 0 (Some c) (cs @ CHR ''<'' # t @ ''>'') = ([(a, b @ CHR ''<'' # t @ ''>'', None)], [])"
      by (metis list.set_intros(2))
    with m have "scan re_target 0 p ((c # cs) @ CHR ''<'' # t @ ''>'') = ([(c # a, b @ CHR ''<'' # t @ ''>'', None)], [])"
      by simp
    with ab show ?thesis by (intro exI[of _ "c # a"] exI[of _ b]) simp
  qed
qed

lemma strip_append_spaces: "\<forall>c\<in>set b. is_space c \<Longrightarrow> strip (a @ b) = strip a"
proof (cases "\<forall>c\<in>set a. is_space c")
  case True
  assume b: "\<forall>c\<in>set b. is_space c"
  have "dropWhile is_space (a @ b) = []" "dropWhile is_space a = []" using True b by auto
  then show ?thesis by (simp only: strip_def)
next
  case False
  assume b: "\<forall>c\<in>set b. is_space c"
  from False obtain y where "y \<in> set a" "\<not> is_space y" by blast
  then have 1: "dropWhile is_space (a @ b) = dropWhile is_space a @ b"
    by (rule dropWhile_append1)
  have 2: "dropWhile is_space (rev b @ rev (dropWhile is_space a))
      = dropWhile is_space (rev (dropWhile is_space a))"
    by (rule dropWhile_append2) (use b in simp)
  show ?thesis by (simp only: strip_def 1 rev_append 2)
qed

lemma markup_free_sublist: "sublist a t \<Longrightarrow> markup_free t \<Longrightarrow> markup_free a"
proof -
  assume s: "sublist a t" and m: "markup_free t"
  have "set a \<subseteq> set t" using s by (rule set_mono_sublist)
  moreover have "\<not> sublist ''::'' a"
  proof
    assume "sublist ''::'' a"
    then have "sublist ''::'' t" using s by (rule sublist_order.order.trans)
    moreover from m have "\<not> sublist ''::'' t" by (simp add: markup_free_def contains_sublist)
    ultimately show False by contradiction
  qed
  moreover from m have "CHR ''`'' \<notin> set t" "CHR ''<'' \<notin> set t" "CHR ''|'' \<notin> set t"
    by (simp_all add: markup_free_def)
  ultimately show ?thesis unfolding markup_free_def contains_sublist by blast
qed

lemma not_contains_cc_sep:
  "\<not> contains ''::'' a \<Longrightarrow> \<not> contains ''::'' b \<Longrightarrow> c \<noteq> CHR '':'' \<Longrightarrow>
   \<not> contains ''::'' (a @ c # b)"
proof (induction a)
  case Nil
  then show ?case by simp
next
  case (Cons x xs)
  then show ?case by (cases xs) auto
qed

lemma not_sublist_cc_sep:
  assumes "\<not> sublist ''::'' a" and "\<not> sublist ''::'' b" and "c \<noteq> CHR '':''"
  shows "\<not> sublist ''::'' (a @ c # b)"
proof -
  have 1: "\<not> contains ''::'' a" using assms(1) by (simp add: contains_sublist)
  have 2: "\<not> contains ''::'' b" using assms(2) by (simp add: contains_sublist)
  from not_contains_cc_sep[OF 1 2 assms(3)] show ?thesis by (simp add: contains_sublist)
qed

lemma not_sublist_cc_spaces:
  assumes "\<not> sublist ''::'' a" and "\<forall>c\<in>set ws. is_space c"
  shows "\<not> sublist ''::'' (a @ ws)"
  using assms(2)
proof (induction ws rule: rev_induct)
  case Nil
  then show ?case using assms(1) by simp
next
  case (snoc c ws)
  then have c: "c \<noteq> CHR '':''" and ih: "\<not> sublist ''::'' (a @ ws)" by (auto simp: is_space_def)
  have "\<not> sublist ''::'' ((a @ ws) @ c # [])"
    by (rule not_sublist_cc_sep[OF ih _ c]) simp
  then show ?case by simp
qed

lemma space_not_markup:
  "is_space c \<Longrightarrow> c \<noteq> CHR ''`'' \<and> c \<noteq> CHR ''<'' \<and> c \<noteq> CHR ''|'' \<and> c \<noteq> CHR '':''"
  by (auto simp: is_space_def)

lemma target_char_not_backtick: "target_char c \<Longrightarrow> c \<noteq> CHR ''`''"
  by (auto simp: target_char_def is_word_def)

lemma target_start_not_backtick: "target_start c \<Longrightarrow> c \<noteq> CHR ''`''"
  by (auto simp: target_start_def is_lower_def)

lemma target_shaped_no_backtick: "target_shaped t \<Longrightarrow> CHR ''`'' \<notin> set t"
  by (cases t) (auto simp: target_shaped_def dest: target_char_not_backtick target_start_not_backtick)

lemma markup_free_append_spaces:
  assumes "markup_free pre" and "\<forall>c\<in>set ws. is_space c"
  shows "markup_free (pre @ ws)"
  using assms not_sublist_cc_spaces[of pre ws]
  by (auto simp: markup_free_def contains_sublist dest: space_not_markup)

lemma strip_rst_after_target:
  assumes bt: "CHR ''`'' \<notin> set T" and T: "T \<noteq> []"
    and sub: "re_sub re_target (\<lambda>g. []) T = a" and a: "markup_free a"
  shows "strip_rst (Some T) = strip a"
proof -
  from bt have b: "\<not> sublist ''`'' T" by (rule not_sublist_single)
  from a have bt': "\<not> sublist ''`'' a" and bar: "\<not> sublist ''|'' a" and cc: "\<not> sublist ''::'' a"
    by (simp_all add: markup_free_def not_sublist_single contains_sublist)
  show ?thesis using T
    by (simp add: strip_rst_def re_sub_no_match[OF must_rules(1) b]
        re_sub_no_match[OF must_rules(2) b] re_sub_no_match[OF must_rules(3) b] sub
        re_sub_no_match[OF must_rules(5) bt'] re_sub_no_match[OF must_rules(6) bt']
        re_sub_no_match[OF must_rules(7) cc] re_sub_no_match[OF must_rules(8) cc]
        re_sub_no_match[OF must_rules(9) cc] re_sub_no_match[OF must_rules(10) bar]
        re_sub_no_match[OF must_rules(11) cc])
qed

lemma strip_rst_dangling_target:
  assumes pre: "markup_free pre" and ws: "\<forall>c\<in>set ws. is_space c"
    and t: "target_shaped t" and nu: "\<not> url_shaped t"
  shows "strip_rst (Some (pre @ ws @ ''<'' @ t @ ''>'')) = strip pre"
proof -
  let ?T = "(pre @ ws) @ CHR ''<'' # t @ ''>''"
  have mf: "markup_free (pre @ ws)" by (rule markup_free_append_spaces[OF pre ws])
  then have lt: "CHR ''<'' \<notin> set (pre @ ws)" by (simp add: markup_free_def)
  from scan_re_target_match[OF t nu lt, of None] obtain a b where
    ab: "pre @ ws = a @ b" "\<forall>c\<in>set b. is_space c"
    "scan re_target 0 None ?T = ([(a, b @ CHR ''<'' # t @ ''>'', None)], [])"
    by blast
  have sub: "re_sub re_target (\<lambda>g. []) ?T = a"
    unfolding re_sub_def ab(3) by simp
  have "sublist a (pre @ ws)" unfolding ab(1) by simp
  then have a: "markup_free a" using mf by (rule markup_free_sublist)
  have bt: "CHR ''`'' \<notin> set ?T"
    using mf target_shaped_no_backtick[OF t] by (simp add: markup_free_def)
  have "strip_rst (Some ?T) = strip a"
    by (rule strip_rst_after_target[OF bt _ sub a]) simp
  also have "\<dots> = strip (a @ b)" using strip_append_spaces[OF ab(2), of a] by simp
  also have "\<dots> = strip pre" unfolding ab(1)[symmetric] by (rule strip_append_spaces[OF ws])
  finally show ?thesis by simp
qed

lemma strip_rst_url_target:
  assumes pre: "markup_free pre" and url: "markup_free url" and us: "url_shaped url"
  shows "strip_rst (Some (pre @ ''<'' @ url @ ''>'')) = dropWhile is_space pre @ ''<'' @ url @ ''>''"
proof -
  let ?T = "pre @ CHR ''<'' # url @ ''>''"
  have only: "\<forall>ys zs. ?T = ys @ CHR ''<'' # zs \<longrightarrow> url_shaped zs"
  proof (intro allI impI)
    fix ys zs assume eq: "?T = ys @ CHR ''<'' # zs"
    have 1: "CHR ''<'' \<notin> set pre" and 2: "CHR ''<'' \<notin> set (url @ ''>'')"
      using pre url by (simp_all add: markup_free_def)
    from eq have "ys = pre \<and> zs = url @ ''>''"
    proof (simp only: append_eq_append_conv2, elim exE disjE conjE)
      fix us assume "pre @ us = ys" "CHR ''<'' # url @ ''>'' = us @ CHR ''<'' # zs"
      then show ?thesis using 2 by (cases us) auto
    next
      fix us assume "pre = ys @ us" "us @ CHR ''<'' # url @ ''>'' = CHR ''<'' # zs"
      then show ?thesis using 1 by (cases us) auto
    qed
    with us show "url_shaped zs" by (auto simp: url_shaped_def)
  qed
  have sub: "re_sub re_target (\<lambda>g. []) ?T = ?T"
    by (simp add: re_sub_def scan_re_target_none[OF only])
  have bt: "\<not> sublist ''`'' ?T" and bar: "\<not> sublist ''|'' ?T"
    using pre url by (auto intro!: not_sublist_single simp: markup_free_def)
  have u: "\<not> sublist ''::'' url" and p: "\<not> sublist ''::'' pre"
    using url pre by (simp_all add: markup_free_def contains_sublist)
  have "\<not> sublist ''::'' (url @ CHR ''>'' # [])"
    by (rule not_sublist_cc_sep[OF u]) simp_all
  then have cc: "\<not> sublist ''::'' ?T"
    by (intro not_sublist_cc_sep[OF p]) simp_all
  have "strip_rst (Some ?T) = strip ?T"
    by (simp add: strip_rst_def re_sub_no_match[OF must_rules(1) bt]
        re_sub_no_match[OF must_rules(2) bt] re_sub_no_match[OF must_rules(3) bt] sub
        re_sub_no_match[OF must_rules(5) bt] re_sub_no_match[OF must_rules(6) bt]
        re_sub_no_match[OF must_rules(7) cc] re_sub_no_match[OF must_rules(8) cc]
        re_sub_no_match[OF must_rules(9) cc] re_sub_no_match[OF must_rules(10) bar]
        re_sub_no_match[OF must_rules(11) cc])
  also have "\<dots> = dropWhile is_space pre @ CHR ''<'' # url @ ''>''"
  proof -
    have nsp: "\<not> is_space CHR ''<''" "\<not> is_space CHR ''>''" by (simp_all add: is_space_def)
    have 1: "dropWhile is_space ?T = dropWhile is_space pre @ CHR ''<'' # url @ ''>''"
    proof (cases "\<forall>c\<in>set pre. is_space c")
      case True
      then have "dropWhile is_space pre = []" by simp
      moreover have "dropWhile is_space ?T = dropWhile is_space (CHR ''<'' # url @ ''>'')"
        by (rule dropWhile_append2) (use True in simp)
      ultimately show ?thesis using nsp by simp
    next
      case False
      then obtain y where "y \<in> set pre" "\<not> is_space y" by blast
      then show ?thesis by (rule dropWhile_append1)
    qed
    have "rev (dropWhile is_space pre @ CHR ''<'' # url @ ''>'')
        = CHR ''>'' # rev (dropWhile is_space pre @ CHR ''<'' # url)" by simp
    then have 2: "dropWhile is_space (rev (dropWhile is_space pre @ CHR ''<'' # url @ ''>''))
        = rev (dropWhile is_space pre @ CHR ''<'' # url @ ''>'')"
      using nsp by (simp only: dropWhile.simps if_False)
    show ?thesis by (simp only: strip_def 1 2 rev_rev_ident)
  qed
  finally show ?thesis by simp
qed

text \<open>
  Claim C3, amended. In a text that ends with an angle-bracketed target and is otherwise
  free of markup: when the target has the shape the rule recognises (a first character in
  \<open>[a-z@/]\<close>, then characters in \<open>[\w. @+=/:-]\<close>) and does not start with \<open>http://\<close> or
  \<open>https://\<close>, \<open>strip_rst\<close> deletes the bracketed target together with the whitespace
  before it, line breaks included; when the target starts with \<open>http://\<close> or \<open>https://\<close> and
  contains no markup, the bracketed text is preserved verbatim.
\<close>

theorem strip_rst_dangling_target_deleted:
  "(markup_free pre \<and> (\<forall>c\<in>set ws. is_space c) \<and> target_shaped t \<and> \<not> url_shaped t \<longrightarrow>
      strip_rst (Some (pre @ ws @ ''<'' @ t @ ''>'')) = strip pre) \<and>
   (markup_free pre \<and> markup_free url \<and> url_shaped url \<longrightarrow>
      strip_rst (Some (pre @ ''<'' @ url @ ''>'')) = dropWhile is_space pre @ ''<'' @ url @ ''>'')"
proof (intro conjI impI)
  assume "markup_free pre \<and> (\<forall>c\<in>set ws. is_space c) \<and> target_shaped t \<and> \<not> url_shaped t"
  then show "strip_rst (Some (pre @ ws @ ''<'' @ t @ ''>'')) = strip pre"
    using strip_rst_dangling_target[of pre ws t] by blast
next
  assume "markup_free pre \<and> markup_free url \<and> url_shaped url"
  then show "strip_rst (Some (pre @ ''<'' @ url @ ''>'')) = dropWhile is_space pre @ ''<'' @ url @ ''>''"
    using strip_rst_url_target[of pre url] by blast
qed


theorem strip_rst_dangling_target_deleted_witness:
  "markup_free ''some text'' \<and> target_shaped ''action-copy_to_clipboard'' \<and>
   \<not> url_shaped ''action-copy_to_clipboard'' \<and>
   strip_rst (Some ''some text <action-copy_to_clipboard>'') = ''some text'' \<and>
   markup_free ''see '' \<and> markup_free ''https://example.com'' \<and> url_shaped ''https://example.com'' \<and>
   strip_rst (Some ''see <https://example.com>'') = ''see <https://example.com>''"
proof -
  have 1: "markup_free ''some text''" by code_simp
  have 2: "\<forall>c\<in>set '' ''. is_space c" by code_simp
  have 3: "target_shaped ''action-copy_to_clipboard''" by code_simp
  have 4: "\<not> url_shaped ''action-copy_to_clipboard''" by code_simp
  have 5: "markup_free ''see ''" by code_simp
  have 6: "markup_free ''https://example.com''" by code_simp
  have 7: "url_shaped ''https://example.com''" by code_simp
  have 8: "strip ''some text'' = ''some text''" by code_simp
  have 9: "dropWhile is_space ''see '' = ''see ''" by code_simp
  from strip_rst_dangling_target_deleted[of "''some text''" "'' ''" "''action-copy_to_clipboard''" "''https://example.com''"] 1 2 3 4 8
  have a: "strip_rst (Some ''some text <action-copy_to_clipboard>'') = ''some text''" by simp
  from strip_rst_dangling_target_deleted[of "''see ''" "'' ''" "''action-copy_to_clipboard''" "''https://example.com''"] 5 6 7 9
  have b: "strip_rst (Some ''see <https://example.com>'') = ''see <https://example.com>''" by simp
  from 1 3 4 5 6 7 a b show ?thesis by blast
qed

text \<open>
  Claim C3 as stated fails: a target that begins with an upper-case letter is not a URL and
  is not deleted; a URL that contains a double colon after a word character is rewritten by
  the literal-block rule.
\<close>

theorem strip_rst_dangling_target_counterexample:
  "\<not> url_shaped ''Target'' \<and>
   strip_rst (Some ''some text <Target>'') = ''some text <Target>'' \<and>
   url_shaped ''https://e.org/a::b'' \<and>
   strip_rst (Some ''see <https://e.org/a::b>'') = ''see <https://e.org/a:b>''"
  by code_simp

section \<open>The rendering of a flag entry\<close>

lemma hd_split_blank: "hd (split_go [nl, nl] 0 s) = before_blank s"
proof (induction s rule: before_blank.induct)
  case (1 a b cs)
  then show ?case
    using split_go_nonempty[of "[nl, nl]" 0 "b # cs"]
    by (cases "split_go [nl, nl] 0 (b # cs)") auto
qed simp_all

lemma py_join_push: "py_join sep ((c # q) # qs) = c # py_join sep (q # qs)"
  by (cases qs) simp_all

lemma py_join_Nil_Cons: "xs \<noteq> [] \<Longrightarrow> py_join sep ([] # xs) = sep @ py_join sep xs"
  by (cases xs) simp_all

lemma join_split_comma:
  "py_join ''|'' (split_go '','' 0 cs) = map (\<lambda>c. if c = CHR '','' then CHR ''|'' else c) cs"
proof (induction cs)
  case Nil
  show ?case by simp
next
  case (Cons c cs)
  show ?case
  proof (cases "c = CHR '',''")
    case True
    then show ?thesis using Cons split_go_nonempty[of "'',''" 0 cs]
      by (simp add: py_join_Nil_Cons)
  next
    case False
    obtain q qs where q: "split_go '','' 0 cs = q # qs"
      using split_go_nonempty[of "'',''" 0 cs] by (cases "split_go '','' 0 cs") auto
    with False Cons show ?thesis by (simp add: py_join_push)
  qed
qed

lemma ms_sentence_body:
  "ms (Seq (Plus not_dot) (Seq (Lit ''.'') (Lit []))) p s =
     (if takeWhile not_dot s \<noteq> [] \<and> prefix ''.'' (dropWhile not_dot s)
      then [(takeWhile not_dot s @ ''.'', tl (dropWhile not_dot s), None)] else [])"
proof -
  have step: "ms (Seq (Plus not_dot) (Seq (Lit ''.'') (Lit []))) p s =
     (if takeWhile not_dot s = [] then []
      else map (\<lambda>(w2, s2, g2). (takeWhile not_dot s @ w2, s2, g2))
             (ms (Seq (Lit ''.'') (Lit [])) (last_char p (takeWhile not_dot s)) (dropWhile not_dot s)))"
    by (rule ms_Seq_Plus) (auto simp: not_dot_def)
  have tail: "ms (Seq (Lit ''.'') (Lit [])) q r = (if prefix ''.'' r then [(''.'', tl r, None)] else [])"
    for q r by (cases r) (auto simp: merge_grp_def)
  show ?thesis unfolding step tail by simp
qed

lemma ms_first_sentence:
  "ms re_first_sentence p s =
     (case dropWhile not_dot s of
        d # c # r \<Rightarrow>
          if takeWhile not_dot s \<noteq> [] \<and> is_space c
          then [(takeWhile not_dot s @ [CHR ''.'', c], r, Some (takeWhile not_dot s @ ''.''))]
          else []
      | _ \<Rightarrow> [])"
proof -
  have unf: "re_first_sentence =
      Seq (Grp (Seq (Plus not_dot) (Seq (Lit ''.'') (Lit [])))) (Seq (Sym is_space) (Lit []))"
    by (simp add: re_first_sentence_def seqs_def)
  have tail: "ms (Seq (Sym is_space) (Lit [])) q r =
      (case r of [] \<Rightarrow> [] | c # cs \<Rightarrow> if is_space c then [([c], cs, None)] else [])" for q r
    by (cases r) (auto simp: merge_grp_def)
  have grp: "ms (Grp (Seq (Plus not_dot) (Seq (Lit ''.'') (Lit [])))) p s =
     (if takeWhile not_dot s \<noteq> [] \<and> prefix ''.'' (dropWhile not_dot s)
      then [(takeWhile not_dot s @ ''.'', tl (dropWhile not_dot s), Some (takeWhile not_dot s @ ''.''))]
      else [])"
    unfolding ms.simps(10) ms_sentence_body by simp
  have hd_dw: "dropWhile not_dot s = d # r \<Longrightarrow> d = CHR ''.''" for d r
    using hd_dropWhile[of not_dot s] by (auto simp: not_dot_def)
  show ?thesis
  proof (cases "dropWhile not_dot s")
    case Nil
    show ?thesis unfolding unf ms.simps(4) grp tail Nil by simp
  next
    case (Cons d r)
    with hd_dw have d: "d = CHR ''.''" by blast
    show ?thesis unfolding unf ms.simps(4) grp tail Cons d
      by (cases r) (simp_all add: merge_grp_def last_char_def)
  qed
qed

lemma re_match_first_sentence:
  "(case re_match re_first_sentence line of None \<Rightarrow> line | Some (w, g) \<Rightarrow> grp_text g)
   = (case first_sentence line of None \<Rightarrow> line | Some f \<Rightarrow> f)"
proof -
  have nd: "not_dot = (\<lambda>c. c \<noteq> CHR ''.'')" by (simp add: not_dot_def fun_eq_iff)
  show ?thesis
  proof (cases "dropWhile not_dot line")
    case Nil
    show ?thesis
      unfolding re_match_def ms_first_sentence first_sentence_def nd[symmetric] Let_def Nil
      by simp
  next
    case (Cons d r)
    show ?thesis
      unfolding re_match_def ms_first_sentence first_sentence_def nd[symmetric] Let_def Cons
      by (cases r) (simp_all add: grp_text_def)
  qed
qed


lemma flag_str_of_spec: "flag_str_of flags meta = spec_signature flags meta"
  by (cases "meta ''choices''")
     (simp_all add: flag_str_of_def spec_signature_def truthy_def nonempty_def py_split_def
       join_split_comma)

lemma first_para_of_spec:
  "with_default meta (first_para_of desc_lines) = spec_description meta desc_lines"
proof -
  have para: "(if desc \<noteq> [] then strip (hd (py_split [nl, nl] desc)) else []) = strip (before_blank desc)"
    for desc
    by (cases "desc = []") (simp_all add: py_split_def hd_split_blank strip_def)
  show ?thesis
    unfolding with_default_def first_para_of_def spec_description_def Let_def para
      re_match_first_sentence
    by (cases "meta ''default''") (simp_all add: truthy_def nonempty_def)
qed

text \<open>
  Claim C5, amended. A flag line sets the pending flags to its whitespace-separated synonyms
  joined by \<open>", "\<close>. When a flag is flushed, the signature is these flags, followed by \<open>=\<close>
  and the choices separated by bars when the \<open>choices\<close> metadata is not empty, else by
  \<open>" (repeatable)"\<close> when the \<open>type\<close> metadata is \<open>list\<close>; the description is the first
  paragraph of the markup-stripped description text collapsed to one line, cut to its first
  sentence when it is longer than 120 characters and its first period has text before it and
  whitespace after it, and followed by \<open>" (default: value)"\<close> when the \<open>default\<close> metadata
  is not empty.
\<close>

theorem flush_renders_entry:
  "(prefix ''--'' l \<longrightarrow>
      current_flags (step st l) = Some (py_join '', '' (split_ws l)) \<and>
      current_meta (step st l) = Map.empty \<and> current_desc_lines (step st l) = []) \<and>
   (current_flags st = Some flags \<longrightarrow>
      flush st = st\<lparr>entries := entries st @
        [(spec_signature flags (current_meta st),
          spec_description (current_meta st) (current_desc_lines st))]\<rparr>)"
proof (intro conjI impI)
  assume l: "prefix ''--'' l"
  show "current_flags (step st l) = Some (py_join '', '' (split_ws l))"
    and "current_meta (step st l) = Map.empty" and "current_desc_lines (step st l) = []"
    using l by (simp_all add: step_flag)
next
  assume "current_flags st = Some flags"
  then have "flush st = st\<lparr>entries := entries st @
     [(flag_str_of flags (current_meta st),
       with_default (current_meta st) (first_para_of (current_desc_lines st)))]\<rparr>"
    by (rule flush_Some)
  then show "flush st = st\<lparr>entries := entries st @
        [(spec_signature flags (current_meta st),
          spec_description (current_meta st) (current_desc_lines st))]\<rparr>"
    by (simp only: flag_str_of_spec first_para_of_spec)
qed

theorem flush_renders_entry_witness:
  "prefix ''--'' ''--type  -t'' \<and>
   current_flags (step init_state ''--type  -t'') = Some ''--type, -t'' \<and>
   entries (flush \<lparr>entries = [], current_flags = Some ''--type, -t'',
       current_meta = [''choices'' \<mapsto> ''window,tab'', ''default'' \<mapsto> ''window''],
       current_desc_lines = [''The  type'', ''of thing.'']\<rparr>) =
     [(''--type, -t=window|tab'', ''The type of thing. (default: window)'')]"
proof -
  let ?st = "\<lparr>entries = [], current_flags = Some ''--type, -t'',
       current_meta = [''choices'' \<mapsto> ''window,tab'', ''default'' \<mapsto> ''window''],
       current_desc_lines = [''The  type'', ''of thing.'']\<rparr>"
  have 1: "prefix ''--'' ''--type  -t''" by simp
  have 2: "current_flags ?st = Some ''--type, -t''" by simp
  have 3: "py_join '', '' (split_ws ''--type  -t'') = ''--type, -t''" by code_simp
  have 4: "spec_signature ''--type, -t'' (current_meta ?st) = ''--type, -t=window|tab''"
    by code_simp
  have 5: "spec_description (current_meta ?st) (current_desc_lines ?st) = ''The type of thing. (default: window)''"
    by code_simp
  from flush_renders_entry[of "''--type  -t''" init_state] 1 3
  have a: "current_flags (step init_state ''--type  -t'') = Some ''--type, -t''" by simp
  from flush_renders_entry[of "''--type  -t''" ?st "''--type, -t''"] 2
  have "flush ?st = ?st\<lparr>entries := entries ?st @
        [(spec_signature ''--type, -t'' (current_meta ?st),
          spec_description (current_meta ?st) (current_desc_lines ?st))]\<rparr>" by blast
  then have "entries (flush ?st) = [(spec_signature ''--type, -t'' (current_meta ?st),
          spec_description (current_meta ?st) (current_desc_lines ?st))]" by simp
  with 4 5 have b: "entries (flush ?st) = [(''--type, -t=window|tab'', ''The type of thing. (default: window)'')]"
    by simp
  from 1 a b show ?thesis by blast
qed

text \<open>
  Claim C5 as stated fails on a flag whose \<open>choices\<close> and \<open>default\<close> metadata are present
  with an empty value and whose description, longer than 120 characters, contains a period
  followed by whitespace after a first period that is not: no suffix is added and nothing is
  cut.
\<close>

theorem flush_renders_entry_counterexample:
  "parse_options_spec (Some (''--x'' @ [nl] @ ''choices='' @ [nl] @ ''default='' @ [nl] @
     ''Use version 1.5 of the protocol when talking to the remote end because older versions lack the features needed here. Then stop.''))
   = [(''--x'', ''Use version 1.5 of the protocol when talking to the remote end because older versions lack the features needed here. Then stop.'')] \<and>
   120 < length ''Use version 1.5 of the protocol when talking to the remote end because older versions lack the features needed here. Then stop.''"
  by code_simp

section \<open>The lookups of the enrichment pass\<close>






lemma enrich_rc_lookup_fails:
  "am nm = Some e \<Longrightarrow> f (rc_name nm) = Inl ex \<Longrightarrow>
   map_option (enrich_rc_entry f nm) (am nm) = Some e"
  by (simp add: enrich_rc_entry_def)






section \<open>The reference clause of the short field\<close>

lemma ms_see_line:
  "ms see_line q x = (if line_end x then [(takeWhile not_nl x, dropWhile not_nl x, None)] else [])"
proof -
  have unf: "see_line = Seq (Plus not_nl) (Seq Eol (Lit []))" by (simp add: see_line_def seqs_def)
  have eol: "ms (Seq Eol (Lit [])) q r = (if r = [] \<or> r = [nl] then [([], r, None)] else [])" for q r
    by (simp add: merge_grp_def)
  have step: "ms (Seq (Plus not_nl) (Seq Eol (Lit []))) q x =
     (if takeWhile not_nl x = [] then []
      else map (\<lambda>(w2, s2, g2). (takeWhile not_nl x @ w2, s2, g2))
             (ms (Seq Eol (Lit [])) (last_char q (takeWhile not_nl x)) (dropWhile not_nl x)))"
    by (rule ms_Seq_Plus) (auto simp: not_nl_def)
  show ?thesis unfolding unf step eol line_end_def by simp
qed

lemma runs_text_after_ws:
  "(\<exists>x\<in>set (runs is_space cs). line_end (snd x)) = text_after_ws cs"
proof (induction cs)
  case Nil
  show ?case by (simp add: line_end_def)
next
  case (Cons c cs)
  then show ?case by (auto simp: image_iff case_prod_unfold)
qed

lemma ms_see_rest_unfold:
  "ms see_rest q r =
     concat (map (\<lambda>x. map (\<lambda>(w2, s2, g2). (fst x @ w2, s2, g2))
                          (ms see_line (last_char q (fst x)) (snd x)))
                 (rev (tl (runs is_space r))))"
proof -
  have unf: "see_rest = Seq (Plus is_space) see_line"
    by (simp add: see_rest_def see_line_def seqs_def)
  show ?thesis unfolding unf
    by (simp add: comp_def no_grp_def case_prod_unfold merge_grp_None)
qed

lemma ms_see_rest_nonempty: "(ms see_rest q r \<noteq> []) = see_tail r"
proof (cases r)
  case Nil
  then show ?thesis by (simp add: ms_see_rest_unfold see_tail_def)
next
  case (Cons c cs)
  have "(ms see_rest q r \<noteq> []) = (\<exists>x\<in>set (tl (runs is_space r)). line_end (snd x))"
    unfolding ms_see_rest_unfold ms_see_line by (auto simp: concat_eq_Nil_conv)
  also have "\<dots> = (is_space c \<and> (\<exists>x\<in>set (runs is_space cs). line_end (snd x)))"
    using Cons by (auto simp: image_iff case_prod_unfold)
  also have "\<dots> = see_tail r" using Cons by (simp add: runs_text_after_ws see_tail_def)
  finally show ?thesis .
qed

lemma ms_see_rest_end: "(w, rest, g) \<in> set (ms see_rest q r) \<Longrightarrow> rest = [] \<or> rest = [nl]"
  unfolding ms_see_rest_unfold ms_see_line
  by (auto simp: line_end_def split: if_splits)


lemma ms_see_word:
  "ms see_word q b =
     (if prefix ''See'' b
      then map (\<lambda>(w2, s2, g2). (''See'' @ w2, s2, g2)) (ms see_rest (Some CHR ''e'') (drop 3 b))
      else [])"
proof -
  have unf: "see_word = Seq (Lit ''See'') see_rest"
    by (simp add: see_word_def see_rest_def seqs_def)
  show ?thesis unfolding unf
    by (simp add: last_char_def merge_grp_None numeral_3_eq_3)
qed

lemma see_word_space: "is_space c \<Longrightarrow> ms see_word q (c # cs) = []"
  unfolding ms_see_word by (auto simp: is_space_def)

lemma re_see_clause_unfold:
  "re_see_clause = Seq (Opt (\<lambda>c. c = CHR ''.'')) see_ws"
  by (simp add: re_see_clause_def see_ws_def see_word_def seqs_def)

lemma ms_see_ws:
  "ms see_ws q a =
     map (\<lambda>(w2, s2, g2). (takeWhile is_space a @ w2, s2, g2))
       (ms see_word (last_char q (takeWhile is_space a)) (dropWhile is_space a))"
  unfolding see_ws_def by (rule ms_Seq_Star) (rule see_word_space)

lemma ms_see_ws_nonempty:
  "(ms see_ws q a \<noteq> []) =
     (prefix ''See'' (dropWhile is_space a) \<and> see_tail (drop 3 (dropWhile is_space a)))"
  unfolding ms_see_ws ms_see_word using ms_see_rest_nonempty by simp

lemma ms_see_ws_dot: "ms see_ws q (CHR ''.'' # cs) = []"
  unfolding ms_see_ws ms_see_word by (simp add: is_space_def)

lemma ms_see_clause_nonempty: "(ms re_see_clause p s \<noteq> []) = see_clause s"
proof (cases s)
  case Nil
  have "ms re_see_clause p [] = ms see_ws p []"
    unfolding re_see_clause_unfold by (simp add: no_grp_def last_char_def merge_grp_None)
  then show ?thesis
    using ms_see_ws_nonempty[of p "[]"] Nil by (simp add: see_clause_def)
next
  case (Cons c cs)
  show ?thesis
  proof (cases "c = CHR ''.''")
    case True
    have r: "take 2 (runs (\<lambda>c. c = CHR ''.'') s) = [([], s), ([c], cs)]"
      using Cons True by (cases cs) simp_all
    have "ms re_see_clause p s =
        map (\<lambda>(w2, s2, g2). ([c] @ w2, s2, g2)) (ms see_ws (Some c) cs) @
        map (\<lambda>(w2, s2, g2). ([] @ w2, s2, g2)) (ms see_ws p s)"
      unfolding re_see_clause_unfold ms.simps(4) ms.simps(9) r
      by (simp add: no_grp_def last_char_def merge_grp_None)
    moreover have "ms see_ws p s = []" using Cons True ms_see_ws_dot by simp
    ultimately have "(ms re_see_clause p s \<noteq> []) = (ms see_ws (Some c) cs \<noteq> [])" by simp
    then show ?thesis
      unfolding ms_see_ws_nonempty using Cons True by (simp add: see_clause_def Let_def)
  next
    case False
    have r: "take 2 (runs (\<lambda>c. c = CHR ''.'') s) = [([], s)]"
      using Cons False by simp
    have "ms re_see_clause p s = map (\<lambda>(w2, s2, g2). ([] @ w2, s2, g2)) (ms see_ws p s)"
      unfolding re_see_clause_unfold ms.simps(4) ms.simps(9) r
      by (simp add: no_grp_def last_char_def merge_grp_None)
    then have "(ms re_see_clause p s \<noteq> []) = (ms see_ws p s \<noteq> [])" by simp
    then show ?thesis
      unfolding ms_see_ws_nonempty using Cons False by (simp add: see_clause_def Let_def)
  qed
qed

lemma ms_Seq_rest:
  "(w, rest, g) \<in> set (ms (Seq a b) p s) \<Longrightarrow> \<exists>q s1 w2 g2. (w2, rest, g2) \<in> set (ms b q s1)"
  by auto

lemma ms_see_clause_end:
  assumes "(w, rest, g) \<in> set (ms re_see_clause p s)"
  shows "(rest = [] \<or> rest = [nl]) \<and> w \<noteq> [] \<and> s = w @ rest"
proof -
  have unf: "re_see_clause = Seq (Opt (\<lambda>c. c = CHR ''.'')) (Seq (Star is_space) (Seq (Lit ''See'') see_rest))"
    by (simp add: re_see_clause_def see_rest_def seqs_def)
  from assms obtain q1 s1 w1 g1 where
    "(w1, rest, g1) \<in> set (ms (Seq (Star is_space) (Seq (Lit ''See'') see_rest)) q1 s1)"
    unfolding unf by (drule_tac ms_Seq_rest) blast
  then obtain q2 s2 w2 g2 where "(w2, rest, g2) \<in> set (ms (Seq (Lit ''See'') see_rest) q2 s2)"
    by (drule_tac ms_Seq_rest) blast
  then obtain q3 s3 w3 g3 where "(w3, rest, g3) \<in> set (ms see_rest q3 s3)"
    by (drule_tac ms_Seq_rest) blast
  then have r: "rest = [] \<or> rest = [nl]" by (rule ms_see_rest_end)
  have "must re_see_clause ''See''" by (simp add: re_see_clause_def seqs_def)
  with ms_append_must[OF assms, of "''See''"] have "s = w @ rest" "sublist ''See'' w" by auto
  then have "w \<noteq> []" by auto
  with r \<open>s = w @ rest\<close> show ?thesis by simp
qed

lemma flat_push: "flat (push c x) = c # flat x"
proof (cases x)
  case (Pair fs t)
  then show ?thesis by (cases fs) auto
qed

lemma not_see_clause_end: "\<not> see_clause []" "\<not> see_clause [nl]"
  by (simp_all add: see_clause_def is_space_def nl_def)

lemma scan_see_clause:
  "\<exists>rest. (rest = [] \<or> rest = [nl]) \<and> flat (scan re_see_clause 0 p s) = cut_see s @ rest"
proof (induction s arbitrary: p)
  case Nil
  have "ms re_see_clause p [] = []" using ms_see_clause_nonempty[of p "[]"] not_see_clause_end by simp
  then show ?case by simp
next
  case (Cons c cs)
  show ?case
  proof (cases "see_clause (c # cs)")
    case False
    then have "ms re_see_clause p (c # cs) = []" using ms_see_clause_nonempty[of p "c # cs"] by simp
    then have "flat (scan re_see_clause 0 p (c # cs)) = c # flat (scan re_see_clause 0 (Some c) cs)"
      by (simp add: flat_push)
    with Cons[of "Some c"] False show ?thesis by auto
  next
    case True
    then obtain w rest g ms' where m: "ms re_see_clause p (c # cs) = (w, rest, g) # ms'"
      using ms_see_clause_nonempty[of p "c # cs"] by (cases "ms re_see_clause p (c # cs)") auto
    then have "(w, rest, g) \<in> set (ms re_see_clause p (c # cs))" by simp
    from ms_see_clause_end[OF this] have r: "rest = [] \<or> rest = [nl]" and w: "w \<noteq> []"
      and eq: "c # cs = w @ rest" by auto
    from w eq obtain w' where w': "w = c # w'" "cs = w' @ rest" by (cases w) auto
    have none: "ms re_see_clause q rest = []" for q
      using ms_see_clause_nonempty[of q rest] r not_see_clause_end by auto
    have "scan re_see_clause (length w') (Some c) (w' @ rest)
        = scan re_see_clause 0 (last_char (Some c) w') rest"
      by (rule scan_skip)
    also have "\<dots> = ([], rest)"
    proof -
      have none0: "ms re_see_clause q [] = []" for q
        using ms_see_clause_nonempty[of q "[]"] not_see_clause_end by auto
      from r show ?thesis
      proof
        assume "rest = []"
        then show ?thesis using none0 by simp
      next
        assume "rest = [nl]"
        then show ?thesis using none[of "last_char (Some c) w'"] none0 by simp
      qed
    qed
    finally have "scan re_see_clause 0 p (c # cs) = ([([], w, g)], rest)"
      using m w' by simp
    with True r show ?thesis by auto
  qed
qed

lemma re_sub_see_clause:
  "strip (re_sub re_see_clause (\<lambda>g. []) s) = strip (cut_see s)"
proof -
  from scan_see_clause[of None s] obtain rest where
    r: "rest = [] \<or> rest = [nl]" and f: "flat (scan re_see_clause 0 None s) = cut_see s @ rest"
    by blast
  have "re_sub re_see_clause (\<lambda>g. []) s = flat (scan re_see_clause 0 None s)"
    by (cases "scan re_see_clause 0 None s") (simp add: re_sub_def)
  moreover have "\<forall>c\<in>set rest. is_space c" using r by (auto simp: is_space_def nl_def)
  ultimately show ?thesis using f strip_append_spaces[of rest "cut_see s"] by simp
qed

lemma cut_see_prefix: "\<exists>cl. s = cut_see s @ cl \<and> (cl = [] \<or> see_clause cl)"
  by (induction s) auto

lemma cut_see_leftmost: "see_clause c \<Longrightarrow> prefix (cut_see (a @ c)) a"
proof (induction a)
  case Nil
  then show ?case by (cases c) (simp_all add: not_see_clause_end)
next
  case (Cons x xs)
  then show ?case by simp
qed


lemma enrich_launch_short:
  "am nm = Some e \<Longrightarrow> \<exists>e2. enrich_launch s am nm = Some e2 \<and> short e2 = short e"
  by (auto simp: enrich_launch_def Let_def split: option.splits sum.splits)

lemma enrich_shortcuts_short:
  "enrich_shortcuts sm am = Inr am' \<Longrightarrow> am nm = Some e \<Longrightarrow>
   \<exists>e2. am' nm = Some e2 \<and> short e2 = short e"
proof (induction sm arbitrary: am e)
  case Nil
  then show ?case by simp
next
  case (Cons x sm)
  obtain n ms where x: "x = (n, ms)" by (cases x)
  from Cons.prems(1) x consider
      "enrich_shortcuts sm am = Inr am'"
    | e0 m where "am n = Some e0" "enrich_shortcuts sm (am(n \<mapsto> e0\<lparr>doc := strip_rst m\<rparr>)) = Inr am'"
    by (auto split: option.splits if_splits list.splits)
  then show ?case
  proof cases
    case 1
    from Cons.IH[where am = am, OF 1 Cons.prems(2)] show ?thesis .
  next
    case 2
    show ?thesis
    proof (cases "nm = n")
      case True
      with 2(1) Cons.prems(2) have "(am(n \<mapsto> e0\<lparr>doc := strip_rst m\<rparr>)) nm = Some (e\<lparr>doc := strip_rst m\<rparr>)"
        by simp
      from Cons.IH[where am = "am(n \<mapsto> e0\<lparr>doc := strip_rst m\<rparr>)", OF 2(2) this]
      show ?thesis by simp
    next
      case False
      with Cons.prems(2) have "(am(n \<mapsto> e0\<lparr>doc := strip_rst m\<rparr>)) nm = Some e" by simp
      from Cons.IH[where am = "am(n \<mapsto> e0\<lparr>doc := strip_rst m\<rparr>)", OF 2(2) this]
      show ?thesis .
    qed
  qed
qed

lemma enrich_rc_short:
  "enrich_rc imp am = Inr am' \<Longrightarrow> am nm = Some e \<Longrightarrow>
   \<exists>e2. am' nm = Some e2 \<and> short e2 = short e"
  by (auto simp: enrich_rc_def enrich_rc_entry_def split: sum.splits if_splits)

lemma enrich_sources_short:
  assumes "enrich_sources src am = Inr am'" and "am nm = Some e"
  shows "\<exists>e2. am' nm = Some e2 \<and> short e2 = short e"
proof -
  from assms(1) obtain am2 where
    2: "enrich_shortcuts (shortcut_map src) (enrich_launch (launch_options_spec src) am) = Inr am2"
    and 3: "enrich_rc (rc_command_for_name src) am2 = Inr am'"
    by (auto simp: enrich_sources_def split: sum.splits)
  from enrich_launch_short[of am nm e "launch_options_spec src"] assms(2) obtain e1 where
    "enrich_launch (launch_options_spec src) am nm = Some e1" "short e1 = short e" by blast
  with enrich_shortcuts_short[of "shortcut_map src" _ am2 nm e1] 2
  obtain e2 where "am2 nm = Some e2" "short e2 = short e"
    by auto
  with enrich_rc_short[of "rc_command_for_name src" am2 am' nm e2] 3 show ?thesis by auto
qed

text \<open>
  Claim C6, amended. When the enrichment pass completes, the short field of every record is
  the text before its leftmost trailing reference clause, without leading and trailing
  whitespace. The clause begins at the period or the whitespace directly before \<open>See\<close> when
  there is one, so that period is removed with it; the text before the clause is kept up to
  the trimming, and a field without such a clause is only trimmed.
\<close>

theorem enrich_cuts_see_clause:
  assumes "enrich_stub_actions src am = Inr am'" and "am nm = Some e"
  shows "\<exists>e'. am' nm = Some e' \<and> short e' = strip (cut_see (short e)) \<and>
           (\<exists>cl. short e = cut_see (short e) @ cl \<and> (cl = [] \<or> see_clause cl)) \<and>
           (\<forall>a c. short e = a @ c \<and> see_clause c \<longrightarrow> prefix (cut_see (short e)) a)"
proof -
  from assms(1) obtain am3 where 3: "enrich_sources src am = Inr am3"
    and am': "am' = (\<lambda>nm. map_option strip_see_entry (am3 nm))"
    by (auto simp: enrich_stub_actions_def split: sum.splits)
  from enrich_sources_short[of src am am3 nm e] 3 assms(2) obtain e3 where
    e3: "am3 nm = Some e3" "short e3 = short e" by blast
  have "am' nm = Some (strip_see_entry e3)" using am' e3(1) by simp
  moreover have "short (strip_see_entry e3) = strip (cut_see (short e))"
    using e3(2) by (simp add: strip_see_entry_def re_sub_see_clause)
  moreover have "\<exists>cl. short e = cut_see (short e) @ cl \<and> (cl = [] \<or> see_clause cl)"
    by (rule cut_see_prefix)
  moreover have "\<forall>a c. short e = a @ c \<and> see_clause c \<longrightarrow> prefix (cut_see (short e)) a"
    using cut_see_leftmost by auto
  ultimately show ?thesis by blast
qed

theorem enrich_cuts_see_clause_witness:
  "(case enrich_stub_actions
      \<lparr>launch_options_spec = Inl ImportError, shortcut_map = [], rc_command_for_name = Inl ImportError\<rparr>
      [''copy'' \<mapsto> \<lparr>name = ''copy'', short = ''Copy the selection  See the manual.'', doc = ''Copies.''\<rparr>]
    of Inl ex \<Rightarrow> None | Inr am' \<Rightarrow> map_option short (am' ''copy'')) = Some ''Copy the selection''"
proof -
  let ?src = "\<lparr>launch_options_spec = Inl ImportError, shortcut_map = [],
     rc_command_for_name = Inl ImportError\<rparr>"
  let ?e = "\<lparr>name = ''copy'', short = ''Copy the selection  See the manual.'', doc = ''Copies.''\<rparr>"
  let ?am = "[''copy'' \<mapsto> ?e]"
  obtain am' where 1: "enrich_stub_actions ?src ?am = Inr am'"
    by (simp add: enrich_stub_actions_def enrich_sources_def enrich_launch_def enrich_rc_def)
  have 2: "?am ''copy'' = Some ?e" by simp
  have 3: "strip (cut_see ''Copy the selection  See the manual.'') = ''Copy the selection''"
    by code_simp
  from enrich_cuts_see_clause[of ?src ?am am' "''copy''" ?e] 1 2 3 obtain e' where "am' ''copy'' = Some e'" "short e' = ''Copy the selection''"
    by auto
  with 1 show ?thesis by simp
qed

text \<open>
  Claim C6 as stated fails: the text before the clause \<open>See foo\<close> ends with a period, and
  the period is removed with the clause.
\<close>

theorem enrich_see_clause_counterexample:
  "(case enrich_stub_actions
      \<lparr>launch_options_spec = Inl ImportError, shortcut_map = [], rc_command_for_name = Inl ImportError\<rparr>
      [''x'' \<mapsto> \<lparr>name = ''x'', short = ''Do it. See foo'', doc = ''Does it.''\<rparr>]
    of Inl ex \<Rightarrow> None | Inr am' \<Rightarrow> map_option short (am' ''x'')) = Some ''Do it'' \<and>
   \<not> prefix ''Do it.'' ''Do it''"
  by code_simp

section \<open>The leading clause of a stub\<close>

lemma first_rest_append:
  "first_rest (xs @ ys) = (case first_rest xs of None \<Rightarrow> first_rest ys | Some r \<Rightarrow> Some r)"
  by (cases xs) (auto simp: first_rest_def)

lemma first_rest_map: "first_rest (map (\<lambda>(w, r, g). (f w, r, g)) xs) = first_rest xs"
  by (cases xs) (auto simp: first_rest_def)

lemma first_rest_Nil: "first_rest [] = None"
  by (simp add: first_rest_def)

lemma last_runs: "last (runs P s) = (takeWhile P s, dropWhile P s)"
  by (induction s) (auto simp: last_map runs_nonempty)

lemma ms_Seq_Lit_Nil: "ms (Seq a (Lit [])) p s = ms a p s"
proof -
  have "concat (map (\<lambda>(w1, s1, g1). [(w1, s1, merge_grp g1 None)]) xs) = xs" for xs :: "cand list"
    by (induction xs) (auto simp: merge_grp_def)
  then show ?thesis by simp
qed

lemma first_rest_hd: "xs \<noteq> [] \<Longrightarrow> first_rest xs = Some (fst (snd (hd xs)))"
  by (cases xs) (auto simp: first_rest_def)

lemma first_rest_star_end:
  "first_rest (ms (Seq (Star is_space) (Lit [])) q a) = Some (dropWhile is_space a)"
proof -
  have ne: "map no_grp (rev (runs is_space a)) \<noteq> []" by (simp add: runs_nonempty)
  have "hd (map no_grp (rev (runs is_space a))) = no_grp (last (runs is_space a))"
    using runs_nonempty[of is_space a] by (simp add: hd_map hd_rev)
  moreover have "ms (Seq (Star is_space) (Lit [])) q a = map no_grp (rev (runs is_space a))"
    by (simp only: ms_Seq_Lit_Nil ms.simps(6))
  ultimately show ?thesis
    by (simp only: first_rest_hd[OF ne]) (simp add: last_runs no_grp_def)
qed

lemma first_rest_details_end:
  "first_rest (ms details_end q r) = Some (after_details r)"
proof -
  have unf: "details_end = Seq (Opt (\<lambda>c. c = CHR ''.'')) (Seq (Star is_space) (Lit []))"
    by (simp add: details_end_def seqs_def)
  show ?thesis
  proof (cases r)
    case Nil
    have "ms details_end q [] = map (\<lambda>(w, r, g). ([] @ w, r, g)) (ms (Seq (Star is_space) (Lit [])) q [])"
      unfolding unf ms.simps(4) ms.simps(9)
      by (simp add: no_grp_def last_char_def merge_grp_None)
    then show ?thesis using Nil first_rest_star_end[of q "[]"]
      by (simp only: first_rest_map) (simp add: after_details_def)
  next
    case (Cons c cs)
    show ?thesis
    proof (cases "c = CHR ''.''")
      case True
      have r: "take 2 (runs (\<lambda>c. c = CHR ''.'') r) = [([], r), ([c], cs)]"
        using Cons True by (cases cs) simp_all
      have "ms details_end q r =
          map (\<lambda>(w, r, g). ([c] @ w, r, g)) (ms (Seq (Star is_space) (Lit [])) (Some c) cs) @
          map (\<lambda>(w, r, g). ([] @ w, r, g)) (ms (Seq (Star is_space) (Lit [])) q r)"
        unfolding unf ms.simps(4) ms.simps(9) r
        by (simp add: no_grp_def last_char_def merge_grp_None)
      then show ?thesis using Cons True first_rest_star_end[of "Some c" cs]
        by (simp only: first_rest_append first_rest_map) (simp add: after_details_def)
    next
      case False
      have r: "take 2 (runs (\<lambda>c. c = CHR ''.'') r) = [([], r)]"
        using Cons False by simp
      have "ms details_end q r =
          map (\<lambda>(w, r, g). ([] @ w, r, g)) (ms (Seq (Star is_space) (Lit [])) q r)"
        unfolding unf ms.simps(4) ms.simps(9) r
        by (simp add: no_grp_def last_char_def merge_grp_None)
      then show ?thesis using Cons False first_rest_star_end[of q r]
        by (simp only: first_rest_map) (simp add: after_details_def)
    qed
  qed
qed

lemma first_rest_details_word:
  "first_rest (ms details_word q r) =
     (if \<not> word_at q \<and> prefix ''for details'' r then Some (after_details (drop 11 r)) else None)"
proof (cases "prefix ''for details'' r")
  case False
  then show ?thesis by (simp add: details_word_def first_rest_def merge_grp_def)
next
  case True
  then obtain r' where r: "r = ''for details'' @ r'" by (auto simp: prefix_def)
  have w: "word_at (next_char r)" using r by (simp add: next_char_def word_at_def is_word_def)
  have eq: "ms details_word q r =
     (if word_at q then []
      else map (\<lambda>(w, r, g). (''for details'' @ w, r, g)) (ms details_end (Some CHR ''s'') r'))"
    using w unfolding details_word_def r
    by (simp add: next_char_def last_char_def merge_grp_None)
  have d: "drop 11 r = r'" using r by simp
  show ?thesis
  proof (cases "word_at q")
    case wq: True
    then show ?thesis using eq by (simp add: first_rest_Nil)
  next
    case wq: False
    have "first_rest (ms details_word q r) = first_rest (ms details_end (Some CHR ''s'') r')"
      using wq by (simp only: eq if_False first_rest_map)
    then show ?thesis using True wq d by (simp only: first_rest_details_end) simp
  qed
qed


lemma ms_lazy_Nil: "ms (Seq (LazyStar P) d) q [] = ms d q []"
proof -
  have "concat (map (\<lambda>(w1, s1, g1). [(w1, s1, merge_grp None g1)]) xs) = xs" for xs :: "cand list"
    by (induction xs) (auto simp: merge_grp_None)
  then show ?thesis by (simp add: no_grp_def last_char_def case_prod_unfold comp_def)
qed

lemma ms_lazy_Cons:
  "ms (Seq (LazyStar P) d) q (c # cs) =
     ms d q (c # cs) @
     (if P c then map (\<lambda>(w, r, g). (c # w, r, g)) (ms (Seq (LazyStar P) d) (Some c) cs) else [])"
proof -
  have id: "map (\<lambda>x. (fst x, fst (snd x), snd (snd x))) xs = xs" for xs :: "cand list"
    by (induction xs) auto
  have lc: "last_char q (c # w) = last_char (Some c) w" for w
    by (simp add: last_char_def)
  show ?thesis
    by (simp add: no_grp_def case_prod_unfold comp_def merge_grp_None map_concat lc id
        last_char_def[of q "[]"])
qed

lemma details_lazy_Nil: "ms details_lazy q [] = ms details_word q []"
  by (simp only: details_lazy_def ms_lazy_Nil)

lemma details_lazy_Cons:
  "ms details_lazy q (c # cs) =
     ms details_word q (c # cs) @
     (if not_nl c then map (\<lambda>(w, r, g). (c # w, r, g)) (ms details_lazy (Some c) cs) else [])"
  by (simp only: details_lazy_def ms_lazy_Cons)

lemma first_rest_lazy:
  "first_rest (ms details_lazy q s) = map_option after_details (find_for_details q s)"
proof (induction s arbitrary: q)
  case Nil
  show ?case unfolding details_lazy_Nil first_rest_details_word by simp
next
  case (Cons c cs)
  show ?case
  proof (cases "\<not> word_at q \<and> prefix ''for details'' (c # cs)")
    case True
    then have "first_rest (ms details_word q (c # cs)) = Some (after_details (drop 11 (c # cs)))"
      by (simp add: first_rest_details_word)
    then have "first_rest (ms details_lazy q (c # cs)) = Some (after_details (drop 11 (c # cs)))"
      by (simp only: details_lazy_Cons first_rest_append option.case)
    then show ?thesis using True by simp
  next
    case False
    then have "first_rest (ms details_word q (c # cs)) = None"
      by (simp add: first_rest_details_word)
    then have eq: "first_rest (ms details_lazy q (c # cs)) =
        first_rest (if not_nl c then map (\<lambda>(w, r, g). (c # w, r, g)) (ms details_lazy (Some c) cs) else [])"
      by (simp only: details_lazy_Cons first_rest_append option.case)
    show ?thesis
    proof (cases "c = nl")
      case True
      then show ?thesis using False eq by (simp add: not_nl_def first_rest_Nil)
    next
      case nnl: False
      then have "first_rest (ms details_lazy q (c # cs)) = first_rest (ms details_lazy (Some c) cs)"
        using eq by (simp only: not_nl_def if_True first_rest_map simp_thms)
      then show ?thesis using False nnl Cons[of "Some c"] by auto
    qed
  qed
qed


lemma re_see_details_unfold:
  "re_see_details = Seq Bol (Seq (Lit ''See'') (Seq WordB details_lazy))"
  by (simp add: re_see_details_def details_lazy_def details_word_def details_end_def seqs_def)

lemma ms_see_details_Some: "ms re_see_details (Some c) s = []"
  unfolding re_see_details_unfold by simp

lemma first_rest_see_details:
  "first_rest (ms re_see_details None t) =
     (if prefix ''See'' t \<and> \<not> word_at (next_char (drop 3 t))
      then map_option after_details (find_for_details (Some CHR ''e'') (drop 3 t))
      else None)"
proof (cases "prefix ''See'' t")
  case False
  then show ?thesis unfolding re_see_details_unfold by (simp add: first_rest_Nil)
next
  case True
  then obtain r where t: "t = ''See'' @ r" by (auto simp: prefix_def)
  have we: "word_at (Some CHR ''e'')" by (simp add: word_at_def is_word_def)
  have eq: "ms re_see_details None t =
      (if word_at (next_char r) then []
       else map (\<lambda>(w, r, g). (''See'' @ w, r, g)) (ms details_lazy (Some CHR ''e'') r))"
    unfolding re_see_details_unfold t using we
    by (simp add: last_char_def merge_grp_None next_char_def)
  have d: "drop 3 t = r" using t by simp
  show ?thesis
  proof (cases "word_at (next_char r)")
    case w: True
    then show ?thesis using eq d by (simp add: first_rest_Nil)
  next
    case w: False
    have "first_rest (ms re_see_details None t) = first_rest (ms details_lazy (Some CHR ''e'') r)"
      using w by (simp only: eq if_False first_rest_map)
    then show ?thesis using True w d by (simp add: first_rest_lazy)
  qed
qed

lemma scan_anchored_Some:
  assumes "\<And>c s. ms r (Some c) s = []"
  shows "scan r 0 (Some c) s = ([], s)"
  by (induction s arbitrary: c) (simp_all add: assms)

lemma re_sub1_anchored:
  assumes "\<And>c s. ms r (Some c) s = []"
  shows "re_sub1 r (\<lambda>g. []) t = (case first_rest (ms r None t) of None \<Rightarrow> t | Some rest \<Rightarrow> rest)"
proof (cases "ms r None t")
  case Nil
  have "scan r 0 None t = ([], t)"
    using Nil scan_anchored_Some[of r, OF assms] by (cases t) simp_all
  then show ?thesis using Nil by (simp add: re_sub1_def re_search_def first_rest_def)
next
  case (Cons x xs)
  obtain w rest g where x: "x = (w, rest, g)" by (cases x)
  with Cons have "(w, rest, g) \<in> set (ms r None t)" by simp
  from ms_append_must[OF this, of "[]"] have t: "t = w @ rest" by simp
  have "\<exists>fs tl. scan r 0 None t = (([], w, g) # fs, tl)"
    using Cons x by (cases t) (auto split: prod.splits)
  then have "re_search r t = Some ([], w, g)" by (auto simp: re_search_def)
  then show ?thesis using Cons x t by (simp add: re_sub1_def first_rest_def)
qed

lemma re_sub1_see_details: "re_sub1 re_see_details (\<lambda>g. []) t = drop_see_prefix t"
  unfolding re_sub1_anchored[of re_see_details, OF ms_see_details_Some] first_rest_see_details
  by (simp add: drop_see_prefix_def split: option.splits)

lemma strip_no_space: "\<forall>c\<in>set w. \<not> is_space c \<Longrightarrow> strip w = w"
proof -
  assume a: "\<forall>c\<in>set w. \<not> is_space c"
  have 1: "dropWhile is_space w = w" using a by (cases w) auto
  have 2: "dropWhile is_space (rev w) = rev w"
  proof (cases "rev w")
    case Nil
    then show ?thesis by simp
  next
    case (Cons x xs)
    then have "x \<in> set w" by (metis list.set_intros(1) set_rev)
    with a have "\<not> is_space x" by blast
    then show ?thesis unfolding Cons by simp
  qed
  show ?thesis by (simp only: strip_def 1 2 rev_rev_ident)
qed

text \<open>
  Claim C4. \<open>is_stub_doc\<close> is false on an absent and on an empty text; on any other text it
  removes one leading \<open>See ... for details\<close> clause (the shortest one, with an optional period
  and the whitespace after it) and is true exactly when what is left, trimmed, has fewer than
  20 characters. \<open>See X for details.\<close> is a stub, and it no longer is one when 20 or
  more characters, none of them whitespace, are appended.
\<close>

theorem is_stub_doc_classifies:
  "is_stub_doc None = False \<and> is_stub_doc (Some []) = False \<and>
   (t \<noteq> [] \<longrightarrow> is_stub_doc (Some t) = (length (strip (drop_see_prefix t)) < 20)) \<and>
   is_stub_doc (Some ''See X for details.'') \<and>
   (20 \<le> length w \<and> (\<forall>c\<in>set w. \<not> is_space c) \<longrightarrow>
      \<not> is_stub_doc (Some (''See X for details.'' @ w)))"
proof (intro conjI impI)
  show "is_stub_doc None = False" by (simp add: is_stub_doc_def)
  show "is_stub_doc (Some []) = False" by (simp add: is_stub_doc_def)
  show "is_stub_doc (Some t) = (length (strip (drop_see_prefix t)) < 20)" if "t \<noteq> []"
    using that by (simp add: is_stub_doc_def re_sub1_see_details)
  have pre: "drop_see_prefix (''See X for details.'' @ v) = dropWhile is_space v" for v
    by (simp add: drop_see_prefix_def next_char_def word_at_def is_word_def nl_def
        after_details_def)
  have "drop_see_prefix ''See X for details.'' = []" using pre[of "[]"] by simp
  then show "is_stub_doc (Some ''See X for details.'')"
    by (simp add: is_stub_doc_def re_sub1_see_details strip_def)
  show "\<not> is_stub_doc (Some (''See X for details.'' @ w))"
    if w: "20 \<le> length w \<and> (\<forall>c\<in>set w. \<not> is_space c)"
  proof -
    from w have dw: "dropWhile is_space w = w" by (cases w) auto
    from w have "strip w = w" by (simp add: strip_no_space)
    then have "strip (drop_see_prefix (''See X for details.'' @ w)) = w"
      by (simp only: pre dw)
    then show ?thesis using w by (simp add: is_stub_doc_def re_sub1_see_details)
  qed
qed


theorem is_stub_doc_classifies_witness:
  "''See launch for details. x'' \<noteq> [] \<and> is_stub_doc (Some ''See launch for details. x'') \<and>
   20 \<le> length ''abcdefghijklmnopqrst'' \<and>
   \<not> is_stub_doc (Some ''See X for details.abcdefghijklmnopqrst'')"
proof -
  have 1: "''See launch for details. x'' \<noteq> []" by simp
  have 2: "length (strip (drop_see_prefix ''See launch for details. x'')) < 20" by code_simp
  have 3: "20 \<le> length ''abcdefghijklmnopqrst''" by simp
  have 4: "\<forall>c\<in>set ''abcdefghijklmnopqrst''. \<not> is_space c" by code_simp
  from is_stub_doc_classifies[of "''See launch for details. x''" "''abcdefghijklmnopqrst''"] 1 2
  have a: "is_stub_doc (Some ''See launch for details. x'')" by blast
  from is_stub_doc_classifies[of "''See launch for details. x''" "''abcdefghijklmnopqrst''"] 3 4
  have b: "\<not> is_stub_doc (Some (''See X for details.'' @ ''abcdefghijklmnopqrst''))" by blast
  from 1 a 3 b show ?thesis by simp
qed

section \<open>The sentences of \<open>none_is_special_value\<close>\<close>

lemma pieces_push:
  "pieces (push c x) = (case pieces x of [] \<Rightarrow> [[c]] | q # qs \<Rightarrow> (c # q) # qs)"
proof (cases x)
  case (Pair fs t)
  then show ?thesis by (cases fs) auto
qed

lemma sentences_from_sep:
  "sentences_from p True s =
     sentences_from (last_char p (takeWhile is_space s)) False (dropWhile is_space s)"
proof (induction s arbitrary: p)
  case Nil
  show ?case by simp
next
  case (Cons c cs)
  show ?case
  proof (cases "is_space c")
    case True
    have "last_char p (c # takeWhile is_space cs) = last_char (Some c) (takeWhile is_space cs)"
      by (simp add: last_char_def)
    with True Cons[of "Some c"] show ?thesis by simp
  next
    case False
    then show ?thesis by (simp add: last_char_def)
  qed
qed

lemma ms_sentence_end_none:
  "\<not> (terminal p \<and> is_space c) \<Longrightarrow> ms re_sentence_end p (c # cs) = []"
  by (auto simp: re_sentence_end_def seqs_def terminal_def split: option.splits)

lemma ms_sentence_end_Nil: "ms re_sentence_end p [] = []"
  by (auto simp: re_sentence_end_def seqs_def split: option.splits)

lemma rev_map_last: "xs \<noteq> [] \<Longrightarrow> rev (map g xs) = g (last xs) # rev (map g (butlast xs))"
  by (induction xs rule: rev_induct) simp_all

lemma ms_sentence_end_first:
  assumes "terminal p" and "is_space c"
  shows "\<exists>xs. ms re_sentence_end p (c # cs) =
           (c # takeWhile is_space cs, dropWhile is_space cs, None) # xs"
proof -
  have unf: "re_sentence_end = Seq (Behind (\<lambda>c. c \<in> set ''.!?'')) (Seq (Plus is_space) (Lit []))"
    by (simp add: re_sentence_end_def seqs_def)
  have b: "ms (Behind (\<lambda>c. c \<in> set ''.!?'')) p (c # cs) = [([], c # cs, None)]"
    using assms(1) by (auto simp: terminal_def split: option.splits)
  have pl: "ms (Seq (Plus is_space) (Lit [])) p (c # cs) =
      map no_grp (rev (map (\<lambda>(w, r). (c # w, r)) (runs is_space cs)))"
    unfolding ms_Seq_Lit_Nil using assms(2) by simp
  have "rev (map (\<lambda>(w, r). (c # w, r)) (runs is_space cs)) =
      (\<lambda>(w, r). (c # w, r)) (last (runs is_space cs)) #
      rev (map (\<lambda>(w, r). (c # w, r)) (butlast (runs is_space cs)))"
    using runs_nonempty[of is_space cs] by (rule rev_map_last)
  then have "\<exists>xs. ms (Seq (Plus is_space) (Lit [])) p (c # cs) =
      (c # takeWhile is_space cs, dropWhile is_space cs, None) # xs"
    unfolding pl by (simp add: last_runs no_grp_def)
  then obtain xs where
    xs: "ms (Seq (Plus is_space) (Lit [])) p (c # cs) =
      (c # takeWhile is_space cs, dropWhile is_space cs, None) # xs" by blast
  have "ms re_sentence_end p (c # cs) =
      map (\<lambda>(w2, s2, g2). ([] @ w2, s2, merge_grp None g2)) (ms (Seq (Plus is_space) (Lit [])) p (c # cs))"
    unfolding unf ms.simps(4) b by (simp add: last_char_def)
  then show ?thesis unfolding xs by (simp add: merge_grp_None)
qed


lemma pieces_scan_sentences: "pieces (scan re_sentence_end 0 p s) = sentences_from p False s"
proof (induction "length s" arbitrary: s p rule: less_induct)
  case less
  show ?case
  proof (cases s)
    case Nil
    then show ?thesis by (simp add: ms_sentence_end_Nil)
  next
    case (Cons c cs)
    show ?thesis
    proof (cases "terminal p \<and> is_space c")
      case False
      then have m: "ms re_sentence_end p (c # cs) = []" by (rule ms_sentence_end_none)
      have "pieces (scan re_sentence_end 0 (Some c) cs) = sentences_from (Some c) False cs"
        using less[of cs "Some c"] Cons by simp
      then show ?thesis using m False Cons by (auto simp: pieces_push)
    next
      case True
      then obtain xs where m: "ms re_sentence_end p (c # cs) =
          (c # takeWhile is_space cs, dropWhile is_space cs, None) # xs"
        using ms_sentence_end_first[of p c cs] by blast
      let ?tw = "takeWhile is_space cs" and ?dw = "dropWhile is_space cs"
      have "scan re_sentence_end (length ?tw) (Some c) (?tw @ ?dw)
          = scan re_sentence_end 0 (last_char (Some c) ?tw) ?dw"
        by (rule scan_skip)
      then have sk: "scan re_sentence_end (length ?tw) (Some c) cs
          = scan re_sentence_end 0 (last_char (Some c) ?tw) ?dw" by simp
      have "length ?dw < length s" using Cons by (simp add: le_imp_less_Suc length_dropWhile_le)
      then have ih: "pieces (scan re_sentence_end 0 (last_char (Some c) ?tw) ?dw)
          = sentences_from (last_char (Some c) ?tw) False ?dw"
        by (rule less)
      have "pieces (scan re_sentence_end 0 p (c # cs))
          = [] # pieces (scan re_sentence_end 0 (last_char (Some c) ?tw) ?dw)"
        using m sk by (simp split: prod.splits)
      then show ?thesis using True Cons ih sentences_from_sep[of "Some c" cs] by simp
    qed
  qed
qed

lemma re_split_sentences: "re_split re_sentence_end d = sentences d"
  using pieces_scan_sentences[of None d]
  by (cases "scan re_sentence_end 0 None d") (simp add: re_split_def sentences_def)

lemma none_loop_iff:
  "none_loop opt ss =
     (\<exists>s\<in>set ss. contains '':code:`none`'' s \<and> (\<forall>x\<in>set (re_findall re_opt_ref s). x = opt))"
  by (induction ss) (auto simp: Let_def)

text \<open>
  Claim C2. \<open>none_is_special_value\<close> is false on an absent text, and on a text it is true
  exactly when some sentence of the text contains the verbatim-code mention of \<open>none\<close> and
  every option cross-reference found in that sentence is the queried identifier, which
  includes the sentences with no cross-reference.
\<close>

theorem none_is_special_value_iff:
  "none_is_special_value opt None = False \<and>
   none_is_special_value opt (Some d) =
     (\<exists>s\<in>set (sentences d).
        contains '':code:`none`'' s \<and> (\<forall>x\<in>set (re_findall re_opt_ref s). x = opt))"
proof
  show "none_is_special_value opt None = False" by (simp add: none_is_special_value_def)
  show "none_is_special_value opt (Some d) =
     (\<exists>s\<in>set (sentences d).
        contains '':code:`none`'' s \<and> (\<forall>x\<in>set (re_findall re_opt_ref s). x = opt))"
  proof (cases "d = []")
    case True
    then show ?thesis by (simp add: none_is_special_value_def sentences_def)
  next
    case False
    then show ?thesis
      by (simp add: none_is_special_value_def re_split_sentences none_loop_iff)
  qed
qed

theorem none_is_special_value_iff_witness:
  "none_is_special_value ''opt'' (Some ''First one. The :opt:`opt` can be :code:`none`. Last one.'') \<and>
   \<not> none_is_special_value ''opt'' (Some ''The :opt:`other_opt` can be :code:`none`. Last one.'')"
proof -
  let ?a = "''First one. The :opt:`opt` can be :code:`none`. Last one.''"
  let ?b = "''The :opt:`other_opt` can be :code:`none`. Last one.''"
  have 1: "\<exists>s\<in>set (sentences ?a).
        contains '':code:`none`'' s \<and> (\<forall>x\<in>set (re_findall re_opt_ref s). x = ''opt'')"
    by code_simp
  have 2: "\<not> (\<exists>s\<in>set (sentences ?b).
        contains '':code:`none`'' s \<and> (\<forall>x\<in>set (re_findall re_opt_ref s). x = ''opt''))"
    by code_simp
  from none_is_special_value_iff[of "''opt''" ?a] 1 have a: "none_is_special_value ''opt'' (Some ?a)" by blast
  from none_is_special_value_iff[of "''opt''" ?b] 2 have b: "\<not> none_is_special_value ''opt'' (Some ?b)" by blast
  from a b show ?thesis by blast
qed

end
